theory Spec2Isabelle
  imports Main "HOL-Library.AList"
begin

section \<open>The archive of \<^verbatim>\<open>wepy/hdf5.py\<close> as a value\<close>

text \<open>
  \<^verbatim>\<open>WepyHDF5\<close> keeps all of its state in one HDF5 file. The model is the content of
  that file as a value: every method of the class becomes a function that takes the
  archive and returns the result, the changed archive, or the exception the Python
  raises. Groups are maps or lists, datasets are lists of rows. Run, trajectory, frame
  and cycle indices are row positions and are modelled as \<open>nat\<close>.
\<close>

datatype error =
  KeyError | IndexError | ValueError | TypeError | AttributeError | AssertionError | AxisError

type_synonym path = string

text \<open>Sequencing of calls that may raise: the first exception ends the computation.\<close>

fun ebind :: "error + 'a \<Rightarrow> ('a \<Rightarrow> error + 'b) \<Rightarrow> error + 'b" where
  "ebind (Inl e) f = Inl e"
| "ebind (Inr x) f = f x"

text \<open>A \<^verbatim>\<open>for\<close> loop that collects one result per element.\<close>

fun emap :: "('a \<Rightarrow> error + 'b) \<Rightarrow> 'a list \<Rightarrow> error + 'b list" where
  "emap f [] = Inr []"
| "emap f (x # xs) = ebind (f x) (\<lambda>y. ebind (emap f xs) (\<lambda>ys. Inr (y # ys)))"

text \<open>A \<^verbatim>\<open>for\<close> loop that updates a state.\<close>

fun efold :: "('a \<Rightarrow> 'st \<Rightarrow> error + 'st) \<Rightarrow> 'a list \<Rightarrow> 'st \<Rightarrow> error + 'st" where
  "efold f [] s = Inr s"
| "efold f (x # xs) s = ebind (f x s) (efold f xs)"

text \<open>
  A Python \<^verbatim>\<open>dict\<close> whose iteration order matters is an association list with unique
  keys: \<^verbatim>\<open>d[k] = v\<close> is \<^const>\<open>AList.update\<close>, \<^verbatim>\<open>d[k]\<close> is \<^const>\<open>map_of\<close>.
\<close>

definition dict_get :: "('k \<times> 'v) list \<Rightarrow> 'k \<Rightarrow> error + 'v" where
  "dict_get d k = (case map_of d k of None \<Rightarrow> Inl KeyError | Some v \<Rightarrow> Inr v)"

subsection \<open>Settings\<close>

text \<open>
  A dataset of \<^verbatim>\<open>_settings/field_feature_shapes\<close> holds either the dimensionless NaN
  that \<^verbatim>\<open>_create_init\<close> writes for a shape that is not known yet, or the integer array
  made from a shape tuple.
\<close>

datatype shape_ds = NaNScalar | ShapeArray "nat list"

text \<open>A numpy dtype is represented by its \<^verbatim>\<open>descr\<close>: a list of (name, type string) pairs.\<close>

type_synonym dtype = "(string \<times> string) list"

record settings =
  sparse_fields_ds :: "path list"
  n_dims :: nat
  n_atoms :: nat
  main_rep_idxs :: "nat list"
  alt_reps_idxs :: "string \<rightharpoonup> nat list"
  field_feature_shapes_grp :: "path \<rightharpoonup> shape_ds"
  field_feature_dtypes_grp :: "path \<rightharpoonup> string"
  record_fields_grp :: "string \<rightharpoonup> string list"
  continuations_ds :: "(nat \<times> nat) list option"

subsection \<open>Trajectories\<close>

text \<open>
  A trajectory field is a plain dataset with one row per frame, or the group
  \<^verbatim>\<open>{data, _sparse_idxs}\<close> of a sparse field. A row is a feature array; the store
  never looks inside one, so it is a type parameter.
\<close>

datatype 'a field = Dataset "'a list" | SparseGrp "'a list" "nat list"

type_synonym 'a traj = "path \<rightharpoonup> 'a field"

subsection \<open>Record groups\<close>

text \<open>
  A record field dataset is variable length (one ragged row per record) or has a fixed
  feature shape \<^verbatim>\<open>maxshape[1:]\<close>; a row is kept as the flat list of its elements.
  Only a sporadic group has the \<^verbatim>\<open>_cycle_idxs\<close> dataset.
\<close>

datatype 's dset = VLenDS "'s list list" | FixedDS "nat list" "'s list list"

record 's rec_grp =
  cycle_idxs_ds :: "nat list option"
  fields_ds :: "string \<rightharpoonup> 's dset"

subsection \<open>Runs and the archive\<close>

datatype attr = IntAttr nat | StrAttr string

record ('a, 's) run =
  run_attrs :: "string \<rightharpoonup> attr"
  init_walkers :: "(string \<times> 'a) list list"
  trajectories :: "'a traj list"
  rec_grps :: "string \<rightharpoonup> 's rec_grp"

record ('a, 's) archive =
  topology :: string
  units :: "path \<rightharpoonup> string"
  settings :: settings
  runs :: "('a, 's) run list"

text \<open>String constants of the module.\<close>

definition POSITIONS :: string where "POSITIONS = ''positions''"
definition WEIGHTS :: string where "WEIGHTS = ''weights''"
definition RUN_IDX :: string where "RUN_IDX = ''run_idx''"
definition CYCLE_IDX :: string where "CYCLE_IDX = ''cycle_idx''"
definition NONE_STR :: string where "NONE_STR = ''None''"
definition RESAMPLING :: string where "RESAMPLING = ''resampling''"
definition RESAMPLER :: string where "RESAMPLER = ''resampler''"
definition WARPING :: string where "WARPING = ''warping''"
definition PROGRESS :: string where "PROGRESS = ''progress''"
definition BC :: string where "BC = ''boundary_conditions''"
definition SPORADIC_RECORDS :: "string list" where
  "SPORADIC_RECORDS = [RESAMPLER, WARPING, RESAMPLING, BC]"

section \<open>Continuations, runs and contigs\<close>

text \<open>\<^verbatim>\<open>num_runs\<close>, \<^verbatim>\<open>next_run_idx\<close> and \<^verbatim>\<open>run_idxs\<close>: runs are numbered \<open>0..n-1\<close>.\<close>

definition num_runs :: "('a, 's) archive \<Rightarrow> nat" where
  "num_runs a = length (runs a)"

definition next_run_idx :: "('a, 's) archive \<Rightarrow> nat" where
  "next_run_idx a = num_runs a"

definition run_idxs :: "('a, 's) archive \<Rightarrow> nat list" where
  "run_idxs a = [0..<length (runs a)]"

text \<open>
  \<^verbatim>\<open>_init_continuations\<close>: an existing dataset is resized to \<open>(0, 2)\<close>, a missing one is
  created empty.
\<close>

definition init_continuations :: "('a, 's) archive \<Rightarrow> ('a, 's) archive" where
  "init_continuations a =
     (case continuations_ds (settings a) of
        Some cont_dset \<Rightarrow>
          a\<lparr>settings := (settings a)\<lparr>continuations_ds := Some (take 0 cont_dset)\<rparr>\<rparr>
      | None \<Rightarrow> a\<lparr>settings := (settings a)\<lparr>continuations_ds := Some []\<rparr>\<rparr>)"

text \<open>
  \<^verbatim>\<open>add_continuation\<close>: the dataset grows by one row, which is set to
  \<^verbatim>\<open>[continuation_run, base_run]\<close>. The method checks nothing; only the lookup of the
  dataset can fail.
\<close>

definition add_continuation ::
  "('a, 's) archive \<Rightarrow> nat \<Rightarrow> nat \<Rightarrow> error + ('a, 's) archive" where
  "add_continuation a continuation_run base_run =
     (case continuations_ds (settings a) of
        None \<Rightarrow> Inl KeyError
      | Some continuations_dset \<Rightarrow>
          Inr (a\<lparr>settings := (settings a)\<lparr>continuations_ds :=
                 Some (continuations_dset @ [(continuation_run, base_run)])\<rparr>\<rparr>))"

text \<open>
  The methods that create a run write in several steps, and a later step can raise after
  an earlier one has written. Their failures therefore carry, beside the error, the
  archive (or group) as the raise leaves it.

  \<^verbatim>\<open>_add_run_init\<close>: stores the run index as an attribute of the run group (which must
  exist) and records the continuation when one is given.
\<close>

definition add_run_init ::
  "('a, 's) archive \<Rightarrow> nat \<Rightarrow> nat option \<Rightarrow>
   (error \<times> ('a, 's) archive) + ('a, 's) archive" where
  "add_run_init a run_idx continue_run =
     (if length (runs a) \<le> run_idx then Inl (KeyError, a)
      else
        let r = runs a ! run_idx;
            a1 = a\<lparr>runs := (runs a)[run_idx := r\<lparr>run_attrs := (run_attrs r)(RUN_IDX \<mapsto> IntAttr run_idx)\<rparr>]\<rparr>
        in (case continue_run of
              None \<Rightarrow> Inr a1
            | Some base_run \<Rightarrow>
                (case add_continuation a1 run_idx base_run of
                   Inl e \<Rightarrow> Inl (e, a1)
                 | Inr a2 \<Rightarrow> Inr a2)))"

text \<open>
  \<^verbatim>\<open>_add_init_walkers\<close>: one group per walker, in which first the dataset
  \<^verbatim>\<open>weights\<close> is created and then one dataset for every state field whose value is not
  \<^verbatim>\<open>None\<close>. A walker is given as its weight (already as a feature row) and the items of
  its state dictionary. \<^verbatim>\<open>create_dataset\<close> refuses a name that the group already has
  (names are compared whole here), so a state field called \<^verbatim>\<open>weights\<close> raises, with
  the groups and datasets created so far left in the file.
\<close>

fun add_walker_fields ::
  "(string \<times> 'a option) list \<Rightarrow> (string \<times> 'a) list \<Rightarrow>
   (error \<times> (string \<times> 'a) list) + (string \<times> 'a) list" where
  "add_walker_fields [] walker_grp = Inr walker_grp"
| "add_walker_fields ((field_key, field_value) # rest) walker_grp =
     (case field_value of
        None \<Rightarrow> add_walker_fields rest walker_grp
      | Some v \<Rightarrow>
          if field_key \<in> set (map fst walker_grp) then Inl (ValueError, walker_grp)
          else add_walker_fields rest (walker_grp @ [(field_key, v)]))"

fun add_init_walkers ::
  "('a \<times> (string \<times> 'a option) list) list \<Rightarrow> (string \<times> 'a) list list \<Rightarrow>
   (error \<times> (string \<times> 'a) list list) + (string \<times> 'a) list list" where
  "add_init_walkers [] init_walkers_grp = Inr init_walkers_grp"
| "add_init_walkers (walker # rest) init_walkers_grp =
     (case add_walker_fields (snd walker) [(WEIGHTS, fst walker)] of
        Inl (e, walker_grp) \<Rightarrow> Inl (e, init_walkers_grp @ [walker_grp])
      | Inr walker_grp \<Rightarrow> add_init_walkers rest (init_walkers_grp @ [walker_grp]))"

text \<open>
  \<^verbatim>\<open>new_run\<close>: the only place that checks that the run to continue exists. The check
  comes first, before anything is created. Then the run group is created, the initial
  walkers are stored in it, the run is given its index and its continuation edge, and
  the keyword arguments become attributes of the run, except \<^verbatim>\<open>run_idx\<close> (for which
  the Python only warns).
\<close>

definition set_run_kwargs ::
  "('a, 's) archive \<Rightarrow> nat \<Rightarrow> (string \<times> attr) list \<Rightarrow> ('a, 's) archive" where
  "set_run_kwargs a run_idx kwargs =
     fold (\<lambda>(key, val) acc.
             if key \<noteq> RUN_IDX
             then acc\<lparr>runs := (runs acc)[run_idx :=
                    (runs acc ! run_idx)\<lparr>run_attrs := (run_attrs (runs acc ! run_idx))(key \<mapsto> val)\<rparr>]\<rparr>
             else acc) kwargs a"

definition new_run ::
  "('a, 's) archive \<Rightarrow> ('a \<times> (string \<times> 'a option) list) list \<Rightarrow> nat option \<Rightarrow>
   (string \<times> attr) list \<Rightarrow> (error \<times> ('a, 's) archive) + ('a, 's) archive" where
  "new_run a walkers continue_run kwargs =
     (if (case continue_run of None \<Rightarrow> False | Some c \<Rightarrow> c \<notin> set (run_idxs a))
      then Inl (ValueError, a)
      else
        let new_run_idx = next_run_idx a;
            with_run_grp = (\<lambda>init_walkers_grp.
               a\<lparr>runs := runs a @ [\<lparr>run_attrs = Map.empty, init_walkers = init_walkers_grp,
                                      trajectories = [], rec_grps = Map.empty\<rparr>]\<rparr>)
        in (case add_init_walkers walkers [] of
              Inl (e, init_walkers_grp) \<Rightarrow> Inl (e, with_run_grp init_walkers_grp)
            | Inr init_walkers_grp \<Rightarrow>
                (case add_run_init (with_run_grp init_walkers_grp) new_run_idx continue_run of
                   Inl failure \<Rightarrow> Inl failure
                 | Inr a2 \<Rightarrow> Inr (set_run_kwargs a2 new_run_idx kwargs))))"

text \<open>
  \<^verbatim>\<open>is_run_contig\<close>: the list of pairs \<^verbatim>\<open>[run_idxs[idx+1], run_idxs[idx]]\<close>, and for
  each of them a scan of all the rows of the continuations dataset; the first pair that
  no row equals ends the method with \<^verbatim>\<open>False\<close>.
\<close>

definition run_idx_continuations :: "nat list \<Rightarrow> (nat \<times> nat) list" where
  "run_idx_continuations rs = map (\<lambda>idx. (rs ! (idx + 1), rs ! idx)) [0..<length rs - 1]"

fun scan_continuations :: "nat \<times> nat \<Rightarrow> (nat \<times> nat) list \<Rightarrow> bool \<Rightarrow> bool" where
  "scan_continuations run_continuous [] contig = contig"
| "scan_continuations run_continuous (continuous # rest) contig =
     scan_continuations run_continuous rest (if run_continuous = continuous then True else contig)"

fun check_continuations :: "(nat \<times> nat) list \<Rightarrow> (nat \<times> nat) list \<Rightarrow> bool" where
  "check_continuations [] continuations = True"
| "check_continuations (run_continuous # rest) continuations =
     (if \<not> scan_continuations run_continuous continuations False then False
      else check_continuations rest continuations)"

definition is_run_contig :: "('a, 's) archive \<Rightarrow> nat list \<Rightarrow> error + bool" where
  "is_run_contig a rs =
     (case continuations_ds (settings a) of
        None \<Rightarrow> Inl KeyError
      | Some continuations \<Rightarrow> Inr (check_continuations (run_idx_continuations rs) continuations))"

text \<open>
  \<^verbatim>\<open>clone\<close>: a new file gets an empty \<^verbatim>\<open>runs\<close> group and copies of the topology, the
  units and the whole settings group; then \<^verbatim>\<open>self._init_continuations()\<close> runs, on the
  archive being cloned. The result is the new archive and the archive itself after the
  call. (That the target path can be created is the caller's business.)
\<close>

definition clone ::
  "('a, 's) archive \<Rightarrow> string \<Rightarrow> error + (('a, 's) archive \<times> ('a, 's) archive)" where
  "clone a mode =
     (if mode \<notin> set [''w'', ''w-'', ''x''] then Inl AssertionError
      else
        let new_h5 = \<lparr>topology = topology a, units = units a, settings = settings a, runs = []\<rparr>
        in Inr (new_h5, init_continuations a))"

section \<open>Sparse field flags, feature shapes and dtypes\<close>

text \<open>
  \<^verbatim>\<open>_add_sparse_field_flag\<close>: the membership test only decides whether a warning is
  issued; the resize and the write that follow it are not in an \<^verbatim>\<open>else\<close> branch. The
  result is the list of warnings and the archive.
\<close>

definition add_sparse_field_flag ::
  "('a, 's) archive \<Rightarrow> path \<Rightarrow> string list \<times> ('a, 's) archive" where
  "add_sparse_field_flag a field_path =
     (let sparse_fields = sparse_fields_ds (settings a);
          warnings = (if field_path \<in> set sparse_fields
                      then [''sparse field '' @ field_path @ '' already a sparse field, ignoring'']
                      else [])
      in (warnings, a\<lparr>settings := (settings a)\<lparr>sparse_fields_ds := sparse_fields @ [field_path]\<rparr>\<rparr>))"

text \<open>
  The property \<^verbatim>\<open>field_feature_shapes\<close>: a stored shape is read as \<^verbatim>\<open>None\<close> when
  \<^verbatim>\<open>np.isnan(shape).all()\<close> holds. No element of an integer array is NaN, so for a shape
  array this holds exactly when the array has no element.
\<close>

fun decode_shape :: "shape_ds \<Rightarrow> nat list option" where
  "decode_shape NaNScalar = None"
| "decode_shape (ShapeArray shape) = (if list_all (\<lambda>d. False) shape then None else Some shape)"

definition field_feature_shapes :: "('a, 's) archive \<Rightarrow> path \<rightharpoonup> nat list option" where
  "field_feature_shapes a = map_option decode_shape \<circ> field_feature_shapes_grp (settings a)"

definition add_field_feature_shape :: "('a, 's) archive \<Rightarrow> path \<Rightarrow> nat list \<Rightarrow> ('a, 's) archive" where
  "add_field_feature_shape a field_path field_feature_shape =
     a\<lparr>settings := (settings a)\<lparr>field_feature_shapes_grp :=
         (field_feature_shapes_grp (settings a))(field_path \<mapsto> ShapeArray field_feature_shape)\<rparr>\<rparr>"

definition set_field_feature_shape ::
  "('a, 's) archive \<Rightarrow> path \<Rightarrow> nat list \<Rightarrow> error + ('a, 's) archive" where
  "set_field_feature_shape a field_path field_feature_shape =
     (case field_feature_shapes a field_path of
        Some declared \<Rightarrow>
          (case declared of
             None \<Rightarrow>
               Inr (a\<lparr>settings := (settings a)\<lparr>field_feature_shapes_grp :=
                      (field_feature_shapes_grp (settings a))(field_path \<mapsto> ShapeArray field_feature_shape)\<rparr>\<rparr>)
           | Some old \<Rightarrow> Inl AttributeError)
      | None \<Rightarrow> Inr (add_field_feature_shape a field_path field_feature_shape))"

text \<open>
  \<^verbatim>\<open>json.dumps\<close> of a dtype description: a JSON list of two-element lists of strings
  (characters that JSON escapes are not expected in type descriptions).
\<close>

fun join_strs :: "string \<Rightarrow> string list \<Rightarrow> string" where
  "join_strs sep [] = []"
| "join_strs sep [s] = s"
| "join_strs sep (s # t # rest) = s @ sep @ join_strs sep (t # rest)"

definition json_str :: "string \<Rightarrow> string" where
  "json_str s = [CHR 0x22] @ s @ [CHR 0x22]"

definition json_dumps_descr :: "dtype \<Rightarrow> string" where
  "json_dumps_descr d =
     ''['' @ join_strs '', '' (map (\<lambda>(n, t). ''['' @ json_str n @ '', '' @ json_str t @ '']'') d) @ '']''"

text \<open>
  The property \<^verbatim>\<open>field_feature_dtypes\<close>: the stored string \<^verbatim>\<open>'None'\<close> is read as
  \<^verbatim>\<open>None\<close>; any other string is parsed back into the dtype it describes, which the model
  represents by the string itself.
\<close>

definition field_feature_dtypes :: "('a, 's) archive \<Rightarrow> path \<rightharpoonup> string option" where
  "field_feature_dtypes a =
     map_option (\<lambda>dtype_str. if dtype_str = NONE_STR then None else Some dtype_str)
       \<circ> field_feature_dtypes_grp (settings a)"

definition add_field_feature_dtype :: "('a, 's) archive \<Rightarrow> path \<Rightarrow> dtype \<Rightarrow> ('a, 's) archive" where
  "add_field_feature_dtype a field_path field_feature_dtype =
     a\<lparr>settings := (settings a)\<lparr>field_feature_dtypes_grp :=
         (field_feature_dtypes_grp (settings a))(field_path \<mapsto> json_dumps_descr field_feature_dtype)\<rparr>\<rparr>"

definition set_field_feature_dtype ::
  "('a, 's) archive \<Rightarrow> path \<Rightarrow> dtype \<Rightarrow> error + ('a, 's) archive" where
  "set_field_feature_dtype a field_path field_feature_dtype =
     (let feature_dtype_str = json_dumps_descr field_feature_dtype
      in case field_feature_dtypes a field_path of
           Some declared \<Rightarrow>
             (case declared of
                None \<Rightarrow>
                  Inr (a\<lparr>settings := (settings a)\<lparr>field_feature_dtypes_grp :=
                         (field_feature_dtypes_grp (settings a))(field_path \<mapsto> feature_dtype_str)\<rparr>\<rparr>)
              | Some old \<Rightarrow> Inl AttributeError)
         | None \<Rightarrow> Inr (add_field_feature_dtype a field_path field_feature_dtype))"

section \<open>Trajectory fields\<close>

text \<open>
  The result of a field read: a plain array, or a numpy masked array, which is a data
  array together with a mask of the same length (true where the slot is masked). A slot of
  the data array of a masked array is \<open>None\<close> where it holds NaN, the value the array was
  filled with before rows were written into it.
\<close>

datatype 'a arr = Plain "'a list" | Masked "'a option list" "bool list"

text \<open>\<^verbatim>\<open>self.h5['runs/<run_idx>/trajectories/<traj_idx>']\<close>.\<close>

definition h5_traj :: "('a, 's) archive \<Rightarrow> nat \<Rightarrow> nat \<Rightarrow> error + 'a traj" where
  "h5_traj a run_idx traj_idx =
     (if run_idx < length (runs a) \<and> traj_idx < length (trajectories (runs a ! run_idx))
      then Inr (trajectories (runs a ! run_idx) ! traj_idx)
      else Inl KeyError)"

text \<open>\<^verbatim>\<open>grp[name].shape[0]\<close>: the name must be there and must be a dataset.\<close>

definition dset_n_rows :: "'a field option \<Rightarrow> error + nat" where
  "dset_n_rows f =
     (case f of
        None \<Rightarrow> Inl KeyError
      | Some (Dataset rows) \<Rightarrow> Inr (length rows)
      | Some (SparseGrp d s) \<Rightarrow> Inl AttributeError)"

definition num_run_trajs :: "('a, 's) archive \<Rightarrow> nat \<Rightarrow> error + nat" where
  "num_run_trajs a run_idx =
     (if run_idx < length (runs a) then Inr (length (trajectories (runs a ! run_idx)))
      else Inl KeyError)"

definition run_traj_idxs :: "('a, 's) archive \<Rightarrow> nat \<Rightarrow> error + nat list" where
  "run_traj_idxs a run_idx =
     (if run_idx < length (runs a) then Inr [0..<length (trajectories (runs a ! run_idx))]
      else Inl KeyError)"

definition num_traj_frames :: "('a, 's) archive \<Rightarrow> nat \<Rightarrow> nat \<Rightarrow> error + nat" where
  "num_traj_frames a run_idx traj_idx =
     ebind (h5_traj a run_idx traj_idx) (\<lambda>traj_grp. dset_n_rows (traj_grp POSITIONS))"

definition num_run_cycles :: "('a, 's) archive \<Rightarrow> nat \<Rightarrow> error + nat" where
  "num_run_cycles a run_idx = num_traj_frames a run_idx 0"

text \<open>
  h5py's read of a dataset at a list of row positions (h5py 2, which the module is
  written for): the positions must increase strictly, or the read raises \<^verbatim>\<open>TypeError\<close>,
  and lie in the dataset, or it raises \<^verbatim>\<open>ValueError\<close>; the rows come back in the order
  of the list.
\<close>

definition h5_select :: "'b list \<Rightarrow> nat list \<Rightarrow> error + 'b list" where
  "h5_select rows idxs =
     (if \<not> sorted_wrt (<) idxs then Inl TypeError
      else if \<not> list_all (\<lambda>i. i < length rows) idxs then Inl ValueError
      else Inr (map ((!) rows) idxs))"

text \<open>
  numpy's \<^verbatim>\<open>arr[idxs] = rows\<close> for a list of positions (or, for a boolean index, the
  positions where it is true): the rows are broadcast against the positions (equally many,
  or one row), every position must exist, and the rows are stored one after the other.
  \<^verbatim>\<open>arr[idxs] = v\<close> stores one scalar at every position.
\<close>

definition np_put :: "'b list \<Rightarrow> nat list \<Rightarrow> 'b list \<Rightarrow> error + 'b list" where
  "np_put arr idxs rows =
     (if length rows \<noteq> length idxs \<and> length rows \<noteq> 1 then Inl ValueError
      else if list_ex (\<lambda>i. length arr \<le> i) idxs then Inl IndexError
      else Inr (fold (\<lambda>(i, r) acc. acc[i := r])
                  (zip idxs (if length rows = length idxs then rows
                             else replicate (length idxs) (hd rows))) arr))"

definition np_put_scalar :: "'b list \<Rightarrow> nat list \<Rightarrow> 'b \<Rightarrow> error + 'b list" where
  "np_put_scalar arr idxs v =
     (if list_ex (\<lambda>i. length arr \<le> i) idxs then Inl IndexError
      else Inr (fold (\<lambda>i acc. acc[i := v]) idxs arr))"

text \<open>\<^verbatim>\<open>np.ma.masked_array(filled_data, mask=mask)\<close> keeps both arrays as they are.\<close>

definition masked_array :: "'a option list \<Rightarrow> bool list \<Rightarrow> 'a arr" where
  "masked_array filled_data mask_arr = Masked filled_data mask_arr"

text \<open>
  \<^verbatim>\<open>_get_sparse_traj_field\<close>. Without a frame selection the result has one slot per frame
  of the trajectory's positions. With one, \<^verbatim>\<open>np.isin\<close> picks the stored rows whose index
  is requested (in stored order) and the requested positions whose frame is stored (in
  requested order), and the former are assigned to the latter.
\<close>

definition get_sparse_traj_field ::
  "('a, 's) archive \<Rightarrow> nat \<Rightarrow> nat \<Rightarrow> path \<Rightarrow> nat list option \<Rightarrow> bool \<Rightarrow> error + 'a arr" where
  "get_sparse_traj_field a run_idx traj_idx field_path frames masked =
     ebind (h5_traj a run_idx traj_idx) (\<lambda>traj_grp.
     ebind (case traj_grp field_path of None \<Rightarrow> Inl KeyError | Some f \<Rightarrow> Inr f) (\<lambda>field.
     ebind (dset_n_rows (traj_grp POSITIONS)) (\<lambda>n_frames.
       case field of
         Dataset rows \<Rightarrow> Inl ValueError
       | SparseGrp field_data sparse_idxs \<Rightarrow>
           (case frames of
              None \<Rightarrow>
                if masked then
                  ebind (np_put (replicate n_frames None) sparse_idxs (map Some field_data))
                    (\<lambda>filled_data.
                  ebind (np_put_scalar (replicate n_frames True) sparse_idxs False)
                    (\<lambda>mask_arr. Inr (masked_array filled_data mask_arr)))
                else Inr (Plain field_data)
            | Some fs \<Rightarrow>
                let sparse_frame_idxs =
                      filter (\<lambda>k. sparse_idxs ! k \<in> set fs) [0..<length sparse_idxs]
                in ebind (h5_select field_data sparse_frame_idxs) (\<lambda>data.
                     if masked then
                       let present = filter (\<lambda>j. fs ! j \<in> set sparse_idxs) [0..<length fs]
                       in ebind (np_put (replicate (length fs) None) present (map Some data))
                            (\<lambda>filled_data.
                          ebind (np_put_scalar (replicate (length fs) True) present False)
                            (\<lambda>mask_arr. Inr (masked_array filled_data mask_arr)))
                     else Inr (Plain data))))))"

text \<open>\<^verbatim>\<open>_get_contiguous_traj_field\<close>: the dataset itself, or its rows at the frames.\<close>

definition get_contiguous_traj_field ::
  "('a, 's) archive \<Rightarrow> nat \<Rightarrow> nat \<Rightarrow> path \<Rightarrow> nat list option \<Rightarrow> error + 'a list" where
  "get_contiguous_traj_field a run_idx traj_idx field_path frames =
     ebind (h5_traj a run_idx traj_idx) (\<lambda>traj_grp.
       case traj_grp field_path of
         None \<Rightarrow> Inl KeyError
       | Some (SparseGrp d s) \<Rightarrow> Inl TypeError
       | Some (Dataset rows) \<Rightarrow>
           (case frames of None \<Rightarrow> Inr rows | Some fs \<Rightarrow> h5_select rows fs))"

text \<open>
  \<^verbatim>\<open>get_traj_field\<close>: a field that the trajectory does not have is a \<^verbatim>\<open>KeyError\<close>; the
  sparse-field list of the settings decides how the field is read.
\<close>

definition get_traj_field ::
  "('a, 's) archive \<Rightarrow> nat \<Rightarrow> nat \<Rightarrow> path \<Rightarrow> nat list option \<Rightarrow> bool \<Rightarrow> error + 'a arr" where
  "get_traj_field a run_idx traj_idx field_path frames masked =
     ebind (h5_traj a run_idx traj_idx) (\<lambda>traj_grp.
       if traj_grp field_path = None then Inl KeyError
       else if field_path \<in> set (sparse_fields_ds (settings a))
       then get_sparse_traj_field a run_idx traj_idx field_path frames masked
       else ebind (get_contiguous_traj_field a run_idx traj_idx field_path frames)
              (\<lambda>rows. Inr (Plain rows)))"

text \<open>
  \<^verbatim>\<open>_add_traj_field_data\<close>: creates the dataset, or for sparse indices the group with the
  data and the indices as given. h5py refuses a name that exists.
\<close>

definition add_traj_field_data ::
  "('a, 's) archive \<Rightarrow> nat \<Rightarrow> nat \<Rightarrow> path \<Rightarrow> 'a list \<Rightarrow> nat list option \<Rightarrow>
   error + ('a, 's) archive" where
  "add_traj_field_data a run_idx traj_idx field_path field_data sparse_idxs =
     ebind (h5_traj a run_idx traj_idx) (\<lambda>traj_grp.
       if traj_grp field_path \<noteq> None then Inl ValueError
       else
         let new_field = (case sparse_idxs of
                            None \<Rightarrow> Dataset field_data
                          | Some idxs \<Rightarrow> SparseGrp field_data idxs);
             r = runs a ! run_idx
         in Inr (a\<lparr>runs := (runs a)[run_idx :=
                   r\<lparr>trajectories := (trajectories r)[traj_idx := traj_grp(field_path \<mapsto> new_field)]\<rparr>]\<rparr>))"

section \<open>Field traces over a contig\<close>

text \<open>
  The first loop of \<^verbatim>\<open>get_contig_trace_fields\<close>: the cycles of the trace grouped by run
  (a \<^verbatim>\<open>defaultdict(list)\<close>), and the runs in the order of their first appearance.
\<close>

fun group_trace ::
  "(nat \<times> nat) list \<Rightarrow> (nat \<Rightarrow> nat list) \<Rightarrow> nat list \<Rightarrow> (nat \<Rightarrow> nat list) \<times> nat list" where
  "group_trace [] runs_frames run_order = (runs_frames, run_order)"
| "group_trace ((run_idx, cycle_idx) # rest) runs_frames run_order =
     group_trace rest
       (runs_frames(run_idx := runs_frames run_idx @ [cycle_idx]))
       (if \<not> run_idx \<in> set run_order then run_order @ [run_idx] else run_order)"

text \<open>
  \<^verbatim>\<open>np.array(run_bundle)\<close> makes one plain array of the reads of a run's trajectories: of
  a masked array it takes the data array and drops the mask, so that a slot that was
  never written contributes its NaN fill, \<open>None\<close>.
\<close>

fun arr_cells :: "'a arr \<Rightarrow> 'a option list" where
  "arr_cells (Plain rows) = map Some rows"
| "arr_cells (Masked filled_data mask_arr) = filled_data"

text \<open>
  \<^verbatim>\<open>np.hstack\<close> of bundles of shape \<open>(n_trajs, n_frames, ...)\<close> joins them along the frame
  axis, trajectory by trajectory. \<^verbatim>\<open>np.swapaxes(field_log, 0, 1)\<close> needs two axes: of
  bundles without trajectories only a one-dimensional empty array is left, and the call
  raises.
\<close>

definition np_hstack :: "'b list list list \<Rightarrow> 'b list list" where
  "np_hstack bundles =
     (case bundles of
        [] \<Rightarrow> []
      | b # bs \<Rightarrow> map (\<lambda>t. concat (map (\<lambda>bundle. bundle ! t) bundles)) [0..<length b])"

definition np_swapaxes01 :: "'b list list \<Rightarrow> error + 'b list list" where
  "np_swapaxes01 field_log =
     (case field_log of
        [] \<Rightarrow> Inl AxisError
      | row # other \<Rightarrow> Inr (map (\<lambda>c. map (\<lambda>r. r ! c) field_log) [0..<length row]))"

definition run_bundle ::
  "('a, 's) archive \<Rightarrow> (nat \<Rightarrow> nat list) \<Rightarrow> path \<Rightarrow> nat \<Rightarrow> error + 'a option list list" where
  "run_bundle a runs_frames field run_idx =
     ebind (run_traj_idxs a run_idx) (\<lambda>traj_idxs.
     ebind (emap (\<lambda>traj_idx. get_traj_field a run_idx traj_idx field
                                (Some (runs_frames run_idx)) True) traj_idxs) (\<lambda>traj_field_vals.
       Inr (map arr_cells traj_field_vals)))"

definition get_contig_trace_fields ::
  "('a, 's) archive \<Rightarrow> (nat \<times> nat) list \<Rightarrow> path list \<Rightarrow>
   error + (path \<times> 'a option list list) list" where
  "get_contig_trace_fields a contig_trace field_paths =
     (let (runs_frames, run_order) = group_trace contig_trace (\<lambda>r. []) []
      in case run_order of
           [] \<Rightarrow> Inl IndexError
         | first_run # other \<Rightarrow>
             ebind (num_run_trajs a first_run) (\<lambda>n_trajs_test.
             ebind (emap (num_run_trajs a) run_order) (\<lambda>n_trajs.
               if \<not> list_all (\<lambda>n. n_trajs_test = n) n_trajs then Inl AssertionError
               else
                 emap (\<lambda>field.
                         ebind (emap (run_bundle a runs_frames field) run_order) (\<lambda>bundles.
                         ebind (np_swapaxes01 (np_hstack bundles)) (\<lambda>field_log.
                           Inr (field, field_log)))) field_paths)))"

section \<open>Record groups\<close>

text \<open>
  A value handed to the store for one field of one record is a numpy array: its shape
  and its elements. A cell of the table-like reading of a column is a scalar or a tuple.
  A record is the named tuple of its cycle index and its cells in manifest order.
\<close>

datatype 's ndarray = NDArray (nd_shape: "nat list") (nd_elems: "'s list")

datatype 's cell = Scalar 's | Tuple "'s list"

datatype 's rec_tuple = RecordTuple nat "'s cell list"

definition is_sporadic_records :: "string \<Rightarrow> bool" where
  "is_sporadic_records run_record_key =
     (if run_record_key \<in> set SPORADIC_RECORDS then True else False)"

text \<open>\<^verbatim>\<open>records_grp\<close>: \<^verbatim>\<open>self.h5['runs/<run_idx>/<run_record_key>']\<close>.\<close>

definition records_grp :: "('a, 's) archive \<Rightarrow> nat \<Rightarrow> string \<Rightarrow> error + 's rec_grp" where
  "records_grp a run_idx run_record_key =
     (if run_idx < length (runs a)
      then (case rec_grps (runs a ! run_idx) run_record_key of
              None \<Rightarrow> Inl KeyError
            | Some g \<Rightarrow> Inr g)
      else Inl KeyError)"

definition set_records_grp ::
  "('a, 's) archive \<Rightarrow> nat \<Rightarrow> string \<Rightarrow> 's rec_grp \<Rightarrow> ('a, 's) archive" where
  "set_records_grp a run_idx run_record_key g =
     a\<lparr>runs := (runs a)[run_idx :=
         (runs a ! run_idx)\<lparr>rec_grps := (rec_grps (runs a ! run_idx))(run_record_key \<mapsto> g)\<rparr>]\<rparr>"

text \<open>The property \<^verbatim>\<open>record_fields\<close>, looked up at a group name.\<close>

definition record_fields :: "('a, 's) archive \<Rightarrow> string \<Rightarrow> error + string list" where
  "record_fields a run_record_key =
     (case record_fields_grp (settings a) run_record_key of
        None \<Rightarrow> Inl KeyError
      | Some names \<Rightarrow> Inr names)"

subsection \<open>Appending records\<close>

text \<open>
  \<^verbatim>\<open>np.array([field_data])\<close>: one row, whose feature shape is the shape of the value.
  An array of rows is its feature shape (\<^verbatim>\<open>shape[1:]\<close>) and its rows.
\<close>

definition np_array1 :: "'s ndarray \<Rightarrow> nat list \<times> 's list list" where
  "np_array1 x = (nd_shape x, [nd_elems x])"

text \<open>
  The body of \<^verbatim>\<open>_extend_run_record_data_field\<close> on the dataset it has looked up. The
  assertion wants \<open>field_data\<close> to have a feature axis. A dataset counts as empty when
  every entry of its shape is zero; record datasets are created with their feature shape,
  so that holds for a variable-length dataset without rows and for a fixed one without
  rows whose feature dimensions are all zero.

  In a non-empty variable-length dataset the rows are written at
  \<^verbatim>\<open>(field.shape[0] - 1) + i\<close> after the resize: one new row lands in the last slot, a
  second one is out of range. h5py stores a row in a variable-length dataset only when it
  is one-dimensional, and writes to a fixed dataset only rows of the dataset's feature
  shape (its own broadcasting of other shapes is outside the model and counts as the
  failure). Writing no rows over existing ones (\<^verbatim>\<open>field[-0:, ...]\<close> is the whole
  dataset) fails as well.
\<close>

definition extend_dset :: "'s dset \<Rightarrow> nat list \<times> 's list list \<Rightarrow> error + 's dset" where
  "extend_dset field field_data =
     (let feature_shape = fst field_data;
          new_rows = snd field_data;
          n_new_frames = length new_rows
      in if \<not> length feature_shape + 1 > 1 then Inl AssertionError
         else case field of
           VLenDS rows \<Rightarrow>
             if new_rows \<noteq> [] \<and> length feature_shape \<noteq> 1 then Inl TypeError
             else if rows = [] then Inr (VLenDS new_rows)
             else if n_new_frames \<le> 1 then Inr (VLenDS (rows @ new_rows))
             else Inl ValueError
         | FixedDS feature_dims rows \<Rightarrow>
             if rows = [] \<and> list_all (\<lambda>i. i = 0) feature_dims then
               (if feature_shape \<noteq> feature_dims then Inl AssertionError
                else Inr (FixedDS feature_dims new_rows))
             else if feature_shape \<noteq> feature_dims then Inl TypeError
             else if new_rows = [] \<and> rows \<noteq> [] then Inl TypeError
             else Inr (FixedDS feature_dims (rows @ new_rows)))"

definition extend_run_record_data_field ::
  "('a, 's) archive \<Rightarrow> nat \<Rightarrow> string \<Rightarrow> string \<Rightarrow> nat list \<times> 's list list \<Rightarrow>
   error + ('a, 's) archive" where
  "extend_run_record_data_field a run_idx run_record_key field_name field_data =
     ebind (records_grp a run_idx run_record_key) (\<lambda>g.
     ebind (case fields_ds g field_name of None \<Rightarrow> Inl KeyError | Some d \<Rightarrow> Inr d) (\<lambda>field.
     ebind (extend_dset field field_data) (\<lambda>field'.
       Inr (set_records_grp a run_idx run_record_key
              (g\<lparr>fields_ds := (fields_ds g)(field_name \<mapsto> field')\<rparr>)))))"

text \<open>
  \<^verbatim>\<open>extend_cycle_run_group_records\<close>: for a sporadic group the cycle index is appended
  once per new record; then every field of every record dictionary is appended, one row
  at a time. A record dictionary is the list of its items.
\<close>

definition extend_record_dict ::
  "nat \<Rightarrow> string \<Rightarrow> (string \<times> 's ndarray) list \<Rightarrow> ('a, 's) archive \<Rightarrow> error + ('a, 's) archive" where
  "extend_record_dict run_idx run_record_key record_dict a =
     efold (\<lambda>(field_name, field_data) acc.
              extend_run_record_data_field acc run_idx run_record_key field_name
                (np_array1 field_data)) record_dict a"

definition extend_cycle_run_group_records ::
  "('a, 's) archive \<Rightarrow> nat \<Rightarrow> string \<Rightarrow> nat \<Rightarrow> (string \<times> 's ndarray) list list \<Rightarrow>
   error + ('a, 's) archive" where
  "extend_cycle_run_group_records a run_idx run_record_key cycle_idx fields_data =
     ebind (records_grp a run_idx run_record_key) (\<lambda>record_grp.
     ebind (if is_sporadic_records run_record_key
            then (case cycle_idxs_ds record_grp of
                    None \<Rightarrow> Inl KeyError
                  | Some record_cycle_idxs_ds \<Rightarrow>
                      Inr (set_records_grp a run_idx run_record_key
                             (record_grp\<lparr>cycle_idxs_ds :=
                                Some (record_cycle_idxs_ds @
                                      replicate (length fields_data) cycle_idx)\<rparr>)))
            else Inr a) (\<lambda>a1.
       efold (extend_record_dict run_idx run_record_key) fields_data a1))"

subsection \<open>Reading records\<close>

text \<open>
  \<^verbatim>\<open>_convert_record_field_to_table_column\<close>: a variable-length row becomes a tuple; a
  dataset of rank above two is refused; a feature vector with more than one element
  becomes a tuple, any other is replaced by its first element.
\<close>

definition table_column :: "'s dset \<Rightarrow> error + 's cell list" where
  "table_column dset =
     (case dset of
        VLenDS rows \<Rightarrow> Inr (map Tuple rows)
      | FixedDS feature_dims rows \<Rightarrow>
          if length feature_dims + 1 > 2 then Inl TypeError
          else (case feature_dims of
                  [] \<Rightarrow> Inl IndexError
                | d # ds \<Rightarrow>
                    if d > 1 then Inr (map Tuple rows)
                    else emap (\<lambda>v. case v of [] \<Rightarrow> Inl IndexError | x # xs \<Rightarrow> Inr (Scalar x)) rows))"

definition convert_record_field_to_table_column ::
  "('a, 's) archive \<Rightarrow> nat \<Rightarrow> string \<Rightarrow> string \<Rightarrow> error + 's cell list" where
  "convert_record_field_to_table_column a run_idx run_record_key record_field =
     ebind (records_grp a run_idx run_record_key) (\<lambda>rec_grp.
       case fields_ds rec_grp record_field of
         None \<Rightarrow> Inl KeyError
       | Some dset \<Rightarrow> table_column dset)"

definition convert_record_fields_to_table_columns ::
  "('a, 's) archive \<Rightarrow> nat \<Rightarrow> string \<Rightarrow> error + (string \<times> 's cell list) list" where
  "convert_record_fields_to_table_columns a run_idx run_record_key =
     ebind (record_fields a run_record_key) (\<lambda>names.
       efold (\<lambda>record_field acc.
                ebind (convert_record_field_to_table_column a run_idx run_record_key record_field)
                  (\<lambda>column. Inr (AList.update record_field column acc))) names [])"

text \<open>
  \<^verbatim>\<open>_run_record_namedtuple\<close> makes the record type, named after the group, with the
  fields \<^verbatim>\<open>cycle_idx\<close> and then the fields of the manifest. \<^verbatim>\<open>namedtuple\<close> raises
  \<^verbatim>\<open>ValueError\<close> unless the type name and the field names are identifiers (here: of
  ASCII letters, digits and underscores, not starting with a digit) and no keywords, and
  no field name starts with an underscore or is repeated.
\<close>

definition is_identifier :: "string \<Rightarrow> bool" where
  "is_identifier name =
     (case name of
        [] \<Rightarrow> False
      | c # cs \<Rightarrow>
          c \<in> set ''abcdefghijklmnopqrstuvwxyzABCDEFGHIJKLMNOPQRSTUVWXYZ_''
          \<and> list_all (\<lambda>c. c \<in> set ''abcdefghijklmnopqrstuvwxyzABCDEFGHIJKLMNOPQRSTUVWXYZ_0123456789'')
                cs)"

definition kwlist :: "string list" where
  "kwlist =
     [''False'', ''None'', ''True'', ''and'', ''as'', ''assert'', ''async'', ''await'', ''break'',
      ''class'', ''continue'', ''def'', ''del'', ''elif'', ''else'', ''except'', ''finally'', ''for'',
      ''from'', ''global'', ''if'', ''import'', ''in'', ''is'', ''lambda'', ''nonlocal'', ''not'',
      ''or'', ''pass'', ''raise'', ''return'', ''try'', ''while'', ''with'', ''yield'']"

definition namedtuple_accepts :: "string \<Rightarrow> string list \<Rightarrow> bool" where
  "namedtuple_accepts typename field_names =
     (list_all (\<lambda>name. is_identifier name \<and> name \<notin> set kwlist) (typename # field_names)
      \<and> list_all (\<lambda>name. hd name \<noteq> CHR ''_'') field_names
      \<and> distinct field_names)"

definition run_record_namedtuple :: "('a, 's) archive \<Rightarrow> string \<Rightarrow> error + string list" where
  "run_record_namedtuple a run_record_key =
     ebind (record_fields a run_record_key) (\<lambda>names.
       if namedtuple_accepts (run_record_key @ ''_Record'') (CYCLE_IDX # names)
       then Inr (CYCLE_IDX # names)
       else Inl ValueError)"

text \<open>
  \<^verbatim>\<open>_make_records\<close>. Each record takes the datum at its row from every column, and is
  built in the order of the tuple's fields.
\<close>

definition make_record ::
  "string list \<Rightarrow> nat list \<Rightarrow> (string \<times> 's cell list) list \<Rightarrow> nat \<Rightarrow> error + 's rec_tuple" where
  "make_record names cycle_idxs columns record_idx =
     ebind (efold (\<lambda>(record_field, column) record_d.
                     if record_idx < length column
                     then Inr (AList.update record_field (column ! record_idx) record_d)
                     else Inl IndexError) columns []) (\<lambda>record_d.
     ebind (emap (dict_get record_d) names) (\<lambda>cells.
       Inr (RecordTuple (cycle_idxs ! record_idx) cells)))"

definition make_records ::
  "('a, 's) archive \<Rightarrow> string \<Rightarrow> nat list \<Rightarrow> (string \<times> 's cell list) list option \<Rightarrow>
   error + 's rec_tuple list" where
  "make_records a run_record_key cycle_idxs columns =
     ebind (run_record_namedtuple a run_record_key) (\<lambda>record_type.
       case columns of
         None \<Rightarrow> if cycle_idxs = [] then Inr [] else Inl AttributeError
       | Some cols \<Rightarrow> emap (make_record (tl record_type) cycle_idxs cols) [0..<length cycle_idxs])"

text \<open>
  One pass of the loop of \<^verbatim>\<open>_run_records_sporadic\<close>. The state is the dictionary of
  columns so far (\<^verbatim>\<open>None\<close> before the first run), the cycle indices so far and the
  number of cycles of the runs seen.
\<close>

definition extend_columns ::
  "(string \<times> 's cell list) list \<Rightarrow> (string \<times> 's cell list) list \<Rightarrow>
   error + (string \<times> 's cell list) list" where
  "extend_columns columns run_fields =
     efold (\<lambda>(field_name, field_data) acc.
              ebind (dict_get acc field_name) (\<lambda>column.
                Inr (AList.update field_name (column @ field_data) acc))) run_fields columns"

definition merge_columns ::
  "(string \<times> 's cell list) list option \<Rightarrow> (string \<times> 's cell list) list \<Rightarrow>
   error + (string \<times> 's cell list) list" where
  "merge_columns columns run_fields =
     (case columns of None \<Rightarrow> Inr run_fields | Some cols \<Rightarrow> extend_columns cols run_fields)"

definition sporadic_step ::
  "('a, 's) archive \<Rightarrow> string \<Rightarrow> nat \<Rightarrow>
   (string \<times> 's cell list) list option \<times> nat list \<times> nat \<Rightarrow>
   error + ((string \<times> 's cell list) list option \<times> nat list \<times> nat)" where
  "sporadic_step a run_record_key run_idx st =
     (let columns = fst st; cycle_idxs = fst (snd st); prev_run_cycle_total = snd (snd st)
      in ebind (convert_record_fields_to_table_columns a run_idx run_record_key) (\<lambda>run_fields.
         ebind (merge_columns columns run_fields) (\<lambda>columns'.
         ebind (records_grp a run_idx run_record_key) (\<lambda>rec_grp.
         ebind (case cycle_idxs_ds rec_grp of None \<Rightarrow> Inl KeyError | Some c \<Rightarrow> Inr c)
           (\<lambda>run_cycle_idxs.
         let run_contig_cycle_idxs = map (\<lambda>c. c + prev_run_cycle_total) run_cycle_idxs
         in ebind (num_run_cycles a run_idx) (\<lambda>n.
              Inr (Some columns', cycle_idxs @ run_contig_cycle_idxs,
                   prev_run_cycle_total + n)))))))"

definition run_records_sporadic ::
  "('a, 's) archive \<Rightarrow> nat list \<Rightarrow> string \<Rightarrow> error + 's rec_tuple list" where
  "run_records_sporadic a contig_run_idxs run_record_key =
     ebind (efold (sporadic_step a run_record_key) contig_run_idxs (None, [], 0)) (\<lambda>st.
       make_records a run_record_key (fst (snd st)) (fst st))"

text \<open>
  One pass of the loop of \<^verbatim>\<open>_run_records_continual\<close>. After the columns are read and the
  first record field is looked up, the pass computes
  \<^verbatim>\<open>run_cycle_idxs + prev_run_cycle_total\<close>, where \<^verbatim>\<open>run_cycle_idxs\<close> is the Python list
  \<^verbatim>\<open>list(range(...))\<close> and \<^verbatim>\<open>prev_run_cycle_total\<close> an integer: a \<^verbatim>\<open>TypeError\<close>. (The
  next statement reads \<^verbatim>\<open>run_contig_cycle_idxs\<close>, a name this method never binds.) So no
  pass ever completes.
\<close>

definition continual_step ::
  "('a, 's) archive \<Rightarrow> string \<Rightarrow> nat \<Rightarrow>
   (string \<times> 's cell list) list option \<times> nat list \<times> nat \<Rightarrow>
   error + ((string \<times> 's cell list) list option \<times> nat list \<times> nat)" where
  "continual_step a run_record_key run_idx st =
     (let columns = fst st
      in ebind (convert_record_fields_to_table_columns a run_idx run_record_key) (\<lambda>run_fields.
         ebind (merge_columns columns run_fields) (\<lambda>columns'.
         ebind (record_fields a run_record_key) (\<lambda>names.
         ebind (case names of [] \<Rightarrow> Inl IndexError | n # ns \<Rightarrow> Inr n) (\<lambda>main_record_field.
         ebind (records_grp a run_idx run_record_key) (\<lambda>run_rec_grp.
         ebind (case fields_ds run_rec_grp main_record_field of
                  None \<Rightarrow> Inl KeyError | Some d \<Rightarrow> Inr d) (\<lambda>main_dset.
           Inl TypeError)))))))"

definition run_records_continual ::
  "('a, 's) archive \<Rightarrow> nat list \<Rightarrow> string \<Rightarrow> error + 's rec_tuple list" where
  "run_records_continual a contig_run_idxs run_record_key =
     ebind (efold (continual_step a run_record_key) contig_run_idxs (None, [], 0)) (\<lambda>st.
       make_records a run_record_key (fst (snd st)) (fst st))"

text \<open>\<^verbatim>\<open>run_contig_records\<close> and \<^verbatim>\<open>run_records\<close>.\<close>

definition run_contig_records ::
  "('a, 's) archive \<Rightarrow> nat list \<Rightarrow> string \<Rightarrow> error + 's rec_tuple list" where
  "run_contig_records a contig_run_idxs run_record_key =
     ebind (record_fields a run_record_key) (\<lambda>names.
       if length names = 0 then Inr []
       else if is_sporadic_records run_record_key
       then run_records_sporadic a contig_run_idxs run_record_key
       else run_records_continual a contig_run_idxs run_record_key)"

definition run_records :: "('a, 's) archive \<Rightarrow> nat \<Rightarrow> string \<Rightarrow> error + 's rec_tuple list" where
  "run_records a run_idx run_record_key = run_contig_records a [run_idx] run_record_key"

section \<open>Notions used in the statements about runs\<close>

text \<open>
  The datasets of a walker group have different names: among the state fields of the
  walker that have a value no name is repeated, and none is \<^verbatim>\<open>weights\<close>. The group that
  is then stored for the walker.
\<close>

definition walker_names_differ :: "'a \<times> (string \<times> 'a option) list \<Rightarrow> bool" where
  "walker_names_differ walker =
     distinct (WEIGHTS # map fst (filter (\<lambda>item. snd item \<noteq> None) (snd walker)))"

definition stored_walker :: "'a \<times> (string \<times> 'a option) list \<Rightarrow> (string \<times> 'a) list" where
  "stored_walker walker =
     (WEIGHTS, fst walker) #
     map (\<lambda>item. (fst item, the (snd item))) (filter (\<lambda>item. snd item \<noteq> None) (snd walker))"

section \<open>Notions used in the statements about record groups\<close>

text \<open>
  The kind of a record dataset (variable length, or its fixed feature shape), its rows,
  and the dataset with one more row holding the elements of a value.
\<close>

fun dset_kind :: "'s dset \<Rightarrow> nat list option" where
  "dset_kind (VLenDS rows) = None"
| "dset_kind (FixedDS feature_dims rows) = Some feature_dims"

fun dset_rows :: "'s dset \<Rightarrow> 's list list" where
  "dset_rows (VLenDS rows) = rows"
| "dset_rows (FixedDS feature_dims rows) = rows"

fun dset_append :: "'s dset \<Rightarrow> 's ndarray \<Rightarrow> 's dset" where
  "dset_append (VLenDS rows) x = VLenDS (rows @ [nd_elems x])"
| "dset_append (FixedDS feature_dims rows) x = FixedDS feature_dims (rows @ [nd_elems x])"

text \<open>
  A value fits a dataset when h5py takes it as one row: one-dimensional for a
  variable-length dataset, of the dataset's feature shape (which has at least one
  dimension) otherwise. A numpy array has as many elements as its shape says.
\<close>

definition field_accepts :: "'s dset \<Rightarrow> 's ndarray \<Rightarrow> bool" where
  "field_accepts d x =
     (case dset_kind d of
        None \<Rightarrow> length (nd_shape x) = 1
      | Some feature_dims \<Rightarrow> feature_dims \<noteq> [] \<and> nd_shape x = feature_dims)"

definition nd_ok :: "'s ndarray \<Rightarrow> bool" where
  "nd_ok x = (length (nd_elems x) = prod_list (nd_shape x))"

text \<open>
  A dataset can be read as a table column when it is variable length, or its feature
  shape is one positive dimension and every row has that many elements. The column, and
  the cell that a value becomes: a tuple, or for a feature vector of one element that
  element.
\<close>

definition tabular :: "'s dset \<Rightarrow> bool" where
  "tabular d =
     (case dset_kind d of
        None \<Rightarrow> True
      | Some feature_dims \<Rightarrow>
          length feature_dims = 1 \<and> 0 < prod_list feature_dims \<and>
          list_all (\<lambda>v. length v = prod_list feature_dims) (dset_rows d))"

fun dset_column :: "'s dset \<Rightarrow> 's cell list" where
  "dset_column (VLenDS rows) = map Tuple rows"
| "dset_column (FixedDS feature_dims rows) =
     (if hd feature_dims > 1 then map Tuple rows else map (\<lambda>v. Scalar (hd v)) rows)"

definition table_cell :: "'s dset \<Rightarrow> 's ndarray \<Rightarrow> 's cell" where
  "table_cell d x =
     (case dset_kind d of
        None \<Rightarrow> Tuple (nd_elems x)
      | Some feature_dims \<Rightarrow>
          if hd feature_dims > 1 then Tuple (nd_elems x) else Scalar (hd (nd_elems x)))"

text \<open>
  A record dictionary is well formed for a group and a manifest when its keys are unique,
  it has a value for every field of the manifest, and every value is an array that fits
  the dataset of its field. A sporadic group is well formed for a manifest when it has
  the cycle index dataset and every manifest field is a table column with one row per
  stored cycle index.
\<close>

definition record_ok :: "'s rec_grp \<Rightarrow> string list \<Rightarrow> (string \<times> 's ndarray) list \<Rightarrow> bool" where
  "record_ok g names rd =
     (distinct (map fst rd) \<and> set names \<subseteq> fst ` set rd \<and>
      list_all (\<lambda>fx. nd_ok (snd fx) \<and>
                  (case fields_ds g (fst fx) of None \<Rightarrow> False | Some d \<Rightarrow> field_accepts d (snd fx))) rd)"

definition sporadic_grp_ok :: "'s rec_grp \<Rightarrow> string list \<Rightarrow> nat list \<Rightarrow> bool" where
  "sporadic_grp_ok g names cyc =
     (cycle_idxs_ds g = Some cyc \<and>
      list_all (\<lambda>n. case fields_ds g n of
                      None \<Rightarrow> False
                    | Some d \<Rightarrow> tabular d \<and> length (dset_rows d) = length cyc) names)"

text \<open>The record that is read back for a record dictionary submitted at cycle \<open>c\<close>.\<close>

definition submitted_record ::
  "'s rec_grp \<Rightarrow> string list \<Rightarrow> nat \<Rightarrow> (string \<times> 's ndarray) list \<Rightarrow> 's rec_tuple" where
  "submitted_record g names c rd =
     RecordTuple c (map (\<lambda>n. table_cell (the (fields_ds g n)) (the (map_of rd n))) names)"

text \<open>The records of a run, from its cycle indices and its columns.\<close>

definition read_spec :: "string list \<Rightarrow> nat list \<Rightarrow> (string \<Rightarrow> 's cell list) \<Rightarrow> 's rec_tuple list" where
  "read_spec names cyc colf =
     map (\<lambda>i. RecordTuple (cyc ! i) (map (\<lambda>n. colf n ! i) names)) [0..<length cyc]"

text \<open>
  For a contig: the cycle indices of the runs, each run given as its stored cycle indices
  and its number of cycles, moved up by the cycles of the runs before it; and the relation
  between the dictionary of columns built by the read and the columns it stands for.
\<close>

fun offset_cycles :: "nat \<Rightarrow> (nat list \<times> nat) list \<Rightarrow> nat list" where
  "offset_cycles prev [] = []"
| "offset_cycles prev ((run_cycle_idxs, n) # rest) =
     map (\<lambda>c. c + prev) run_cycle_idxs @ offset_cycles (prev + n) rest"

definition columns_of ::
  "string list \<Rightarrow> (string \<times> 's cell list) list \<Rightarrow> (string \<Rightarrow> 's cell list) \<Rightarrow> bool" where
  "columns_of names cols c =
     (distinct (map fst cols) \<and> fst ` set cols = set names \<and>
      list_all (\<lambda>n. map_of cols n = Some (c n)) names)"

text \<open>
  The effect of appending on a record group, field by field, and two relations used in
  the proofs: the datasets of two groups have the same kinds, and every value of a record
  dictionary fits its dataset.
\<close>

definition grp_put_field :: "string \<times> 's ndarray \<Rightarrow> 's rec_grp \<Rightarrow> 's rec_grp" where
  "grp_put_field fx g =
     (case fields_ds g (fst fx) of
        None \<Rightarrow> g
      | Some d \<Rightarrow> g\<lparr>fields_ds := (fields_ds g)(fst fx \<mapsto> dset_append d (snd fx))\<rparr>)"

definition same_kinds :: "'s rec_grp \<Rightarrow> 's rec_grp \<Rightarrow> bool" where
  "same_kinds g g' = (\<forall>f. map_option dset_kind (fields_ds g' f) = map_option dset_kind (fields_ds g f))"

definition record_accepted :: "'s rec_grp \<Rightarrow> (string \<times> 's ndarray) list \<Rightarrow> bool" where
  "record_accepted g rd =
     list_all (\<lambda>fx. case fields_ds g (fst fx) of None \<Rightarrow> False | Some d \<Rightarrow> field_accepts d (snd fx)) rd"

section \<open>Notions used in the statements about trajectory fields\<close>

text \<open>
  The trace of a contig: the runs of the contig in their order, each with the cycles
  selected from it.
\<close>

definition contig_trace_of :: "nat list \<Rightarrow> (nat \<Rightarrow> nat list) \<Rightarrow> (nat \<times> nat) list" where
  "contig_trace_of rs cycles = concat (map (\<lambda>r. map (Pair r) (cycles r)) rs)"

text \<open>
  What a trajectory stores for a field at a cycle: the row of a dataset at the cycle; for
  a sparse field the row stored for the cycle, and \<open>None\<close> (NaN in an array) for a cycle
  without a row.
\<close>

definition stored_cell :: "'a traj \<Rightarrow> path \<Rightarrow> nat \<Rightarrow> 'a option" where
  "stored_cell traj_grp field_path c =
     (case traj_grp field_path of
        None \<Rightarrow> None
      | Some (Dataset rows) \<Rightarrow> Some (rows ! c)
      | Some (SparseGrp field_data sparse_idxs) \<Rightarrow> map_of (zip sparse_idxs field_data) c)"

text \<open>
  A field of a trajectory that is stored as the archive's settings say and covers the
  cycles \<open>cs\<close>: either a dataset, of a field that is not flagged sparse, with a row for
  each of the cycles; or the group of a field flagged sparse, with increasing indices and
  one data row per index, in a trajectory that has its positions.
\<close>

definition field_readable :: "settings \<Rightarrow> 'a traj \<Rightarrow> path \<Rightarrow> nat list \<Rightarrow> bool" where
  "field_readable st traj_grp field_path cs =
     (case traj_grp field_path of
        None \<Rightarrow> False
      | Some (Dataset rows) \<Rightarrow>
          field_path \<notin> set (sparse_fields_ds st) \<and> list_all (\<lambda>c. c < length rows) cs
      | Some (SparseGrp field_data sparse_idxs) \<Rightarrow>
          field_path \<in> set (sparse_fields_ds st)
          \<and> (case traj_grp POSITIONS of Some (Dataset rows) \<Rightarrow> True | _ \<Rightarrow> False)
          \<and> sorted_wrt (<) sparse_idxs \<and> length field_data = length sparse_idxs)"

text \<open>
  Used in the proofs: the frames of a trace grouped by run, and its runs in the order of
  their first appearance, as the first loop of \<^verbatim>\<open>get_contig_trace_fields\<close> computes
  them; and the block of a run in the result, one row per requested cycle of the run,
  holding for every trajectory slot what the read of that trajectory returned there.
\<close>

definition trace_frames :: "(nat \<times> nat) list \<Rightarrow> nat \<Rightarrow> nat list" where
  "trace_frames contig_trace = fst (group_trace contig_trace (\<lambda>r. []) [])"

definition trace_runs :: "(nat \<times> nat) list \<Rightarrow> nat list" where
  "trace_runs contig_trace = snd (group_trace contig_trace (\<lambda>r. []) [])"

definition trace_block ::
  "nat \<Rightarrow> (nat \<Rightarrow> nat \<Rightarrow> 'a arr) \<Rightarrow> (nat \<Rightarrow> nat list) \<Rightarrow> nat \<Rightarrow> 'a option list list" where
  "trace_block n vals frames r =
     map (\<lambda>c. map (\<lambda>t. arr_cells (vals r t) ! c) [0..<n]) [0..<length (frames r)]"

section \<open>Example archives\<close>

text \<open>
  Small archives on which the statements below are evaluated. Rows and record elements are
  numbers here.
\<close>

definition base_settings :: settings where
  "base_settings =
     \<lparr>sparse_fields_ds = [''observables/rmsd''], n_dims = 3, n_atoms = 1, main_rep_idxs = [0],
      alt_reps_idxs = Map.empty,
      field_feature_shapes_grp = [''observables/rmsd'' \<mapsto> NaNScalar],
      field_feature_dtypes_grp = [''observables/rmsd'' \<mapsto> NONE_STR],
      record_fields_grp = Map.empty,
      continuations_ds = Some [(1, 0), (2, 1)]\<rparr>"

definition empty_run :: "(nat, nat) run" where
  "empty_run = \<lparr>run_attrs = Map.empty, init_walkers = [], trajectories = [], rec_grps = Map.empty\<rparr>"

text \<open>Three runs, run 1 continuing run 0 and run 2 continuing run 1.\<close>

definition chain_archive :: "(nat, nat) archive" where
  "chain_archive =
     \<lparr>topology = ''{}'', units = Map.empty, settings = base_settings,
      runs = [empty_run, empty_run, empty_run]\<rparr>"

text \<open>
  Two runs with one trajectory each (five and three frames), run 1 continuing run 0. Each
  has the sporadic group \<^verbatim>\<open>resampling\<close>, with a fixed-shape and a variable-length
  field, and the continual group \<^verbatim>\<open>progress\<close>.
\<close>

definition resampling_grp0 :: "nat rec_grp" where
  "resampling_grp0 =
     \<lparr>cycle_idxs_ds = Some [0, 3],
      fields_ds = [''decision_id'' \<mapsto> FixedDS [1] [[1], [2]],
                   ''target_idxs'' \<mapsto> VLenDS [[0], [1, 2]]]\<rparr>"

definition resampling_grp1 :: "nat rec_grp" where
  "resampling_grp1 =
     \<lparr>cycle_idxs_ds = Some [1],
      fields_ds = [''decision_id'' \<mapsto> FixedDS [1] [[3]],
                   ''target_idxs'' \<mapsto> VLenDS [[4]]]\<rparr>"

definition progress_grp0 :: "nat rec_grp" where
  "progress_grp0 =
     \<lparr>cycle_idxs_ds = None,
      fields_ds = [''min_distance'' \<mapsto> FixedDS [1] [[10], [11], [12], [13], [14]]]\<rparr>"

definition progress_grp1 :: "nat rec_grp" where
  "progress_grp1 =
     \<lparr>cycle_idxs_ds = None,
      fields_ds = [''min_distance'' \<mapsto> FixedDS [1] [[15], [16], [17]]]\<rparr>"

definition records_archive :: "(nat, nat) archive" where
  "records_archive =
     \<lparr>topology = ''{}'', units = Map.empty,
      settings = base_settings\<lparr>record_fields_grp :=
                   [RESAMPLING \<mapsto> [''decision_id'', ''target_idxs''],
                    PROGRESS \<mapsto> [''min_distance'']],
                 continuations_ds := Some [(1, 0)]\<rparr>,
      runs = [\<lparr>run_attrs = Map.empty, init_walkers = [],
               trajectories = [[POSITIONS \<mapsto> Dataset [0, 1, 2, 3, 4]]],
               rec_grps = [RESAMPLING \<mapsto> resampling_grp0, PROGRESS \<mapsto> progress_grp0]\<rparr>,
              \<lparr>run_attrs = Map.empty, init_walkers = [],
               trajectories = [[POSITIONS \<mapsto> Dataset [0, 1, 2]]],
               rec_grps = [RESAMPLING \<mapsto> resampling_grp1, PROGRESS \<mapsto> progress_grp1]\<rparr>]\<rparr>"

text \<open>Two records to append to the resampling group of run 0.\<close>

definition new_resampling_records :: "(string \<times> nat ndarray) list list" where
  "new_resampling_records =
     [[(''decision_id'', NDArray [1] [2]), (''target_idxs'', NDArray [2] [5, 6])],
      [(''decision_id'', NDArray [1] [1]), (''target_idxs'', NDArray [1] [7])]]"

text \<open>
  The first of the two runs before it has any trajectory; a run whose resampling group
  has a field name that is no identifier; and a run whose resampling group has an empty
  manifest.
\<close>

definition no_traj_archive :: "(nat, nat) archive" where
  "no_traj_archive =
     records_archive\<lparr>runs := [\<lparr>run_attrs = Map.empty, init_walkers = [], trajectories = [],
                                 rec_grps = [RESAMPLING \<mapsto> resampling_grp0]\<rparr>]\<rparr>"

definition bad_names_archive :: "(nat, nat) archive" where
  "bad_names_archive =
     \<lparr>topology = ''{}'', units = Map.empty,
      settings = base_settings\<lparr>record_fields_grp := [RESAMPLING \<mapsto> [''target-idxs'']]\<rparr>,
      runs = [\<lparr>run_attrs = Map.empty, init_walkers = [],
               trajectories = [[POSITIONS \<mapsto> Dataset [0, 1, 2, 3, 4]]],
               rec_grps = [RESAMPLING \<mapsto> \<lparr>cycle_idxs_ds = Some [],
                                            fields_ds = [''target-idxs'' \<mapsto> VLenDS []]\<rparr>]\<rparr>]\<rparr>"

definition no_fields_archive :: "(nat, nat) archive" where
  "no_fields_archive =
     \<lparr>topology = ''{}'', units = Map.empty,
      settings = base_settings\<lparr>record_fields_grp := [RESAMPLING \<mapsto> []]\<rparr>,
      runs = [\<lparr>run_attrs = Map.empty, init_walkers = [],
               trajectories = [[POSITIONS \<mapsto> Dataset [0, 1, 2, 3, 4]]],
               rec_grps = [RESAMPLING \<mapsto> \<lparr>cycle_idxs_ds = Some [], fields_ds = Map.empty\<rparr>]\<rparr>]\<rparr>"

text \<open>
  One run with one trajectory of ten frames, which has the sparse field
  \<^verbatim>\<open>observables/rmsd\<close> with rows at the frames 2, 5 and 9.
\<close>

definition sparse_archive :: "(nat, nat) archive" where
  "sparse_archive =
     \<lparr>topology = ''{}'', units = Map.empty,
      settings = base_settings\<lparr>sparse_fields_ds := [''observables/rmsd'', ''observables/sasa'']\<rparr>,
      runs = [\<lparr>run_attrs = Map.empty, init_walkers = [],
               trajectories = [[POSITIONS \<mapsto> Dataset [0, 1, 2, 3, 4, 5, 6, 7, 8, 9],
                                ''observables/rmsd'' \<mapsto> SparseGrp [20, 50, 90] [2, 5, 9]]],
               rec_grps = Map.empty\<rparr>]\<rparr>"

text \<open>
  Two runs of five and three cycles with four trajectory slots each; the positions of run
  \<open>r\<close>, slot \<open>t\<close> at cycle \<open>c\<close> are \<open>g r t c\<close>.
\<close>

definition two_run_archive :: "(nat \<Rightarrow> nat \<Rightarrow> nat \<Rightarrow> 'a) \<Rightarrow> ('a, 's) archive" where
  "two_run_archive g =
     \<lparr>topology = ''{}'', units = Map.empty,
      settings = base_settings\<lparr>continuations_ds := Some [(1, 0)]\<rparr>,
      runs = [\<lparr>run_attrs = Map.empty, init_walkers = [],
               trajectories = map (\<lambda>t. [POSITIONS \<mapsto> Dataset (map (g 0 t) [0..<5])]) [0..<4],
               rec_grps = Map.empty\<rparr>,
              \<lparr>run_attrs = Map.empty, init_walkers = [],
               trajectories = map (\<lambda>t. [POSITIONS \<mapsto> Dataset (map (g 1 t) [0..<3])]) [0..<4],
               rec_grps = Map.empty\<rparr>]\<rparr>"

text \<open>
  Two runs with two trajectory slots each (three and two cycles), run 0 continuing run 1,
  with positions and the sparse field \<^verbatim>\<open>observables/rmsd\<close>.
\<close>

definition trace_archive :: "(nat, nat) archive" where
  "trace_archive =
     \<lparr>topology = ''{}'', units = Map.empty,
      settings = base_settings\<lparr>continuations_ds := Some [(0, 1)]\<rparr>,
      runs = [\<lparr>run_attrs = Map.empty, init_walkers = [],
               trajectories = [[POSITIONS \<mapsto> Dataset [0, 1, 2],
                                ''observables/rmsd'' \<mapsto> SparseGrp [20] [2]],
                               [POSITIONS \<mapsto> Dataset [10, 11, 12],
                                ''observables/rmsd'' \<mapsto> SparseGrp [21, 22] [0, 2]]],
               rec_grps = Map.empty\<rparr>,
              \<lparr>run_attrs = Map.empty, init_walkers = [],
               trajectories = [[POSITIONS \<mapsto> Dataset [100, 101],
                                ''observables/rmsd'' \<mapsto> SparseGrp [] []],
                               [POSITIONS \<mapsto> Dataset [110, 111],
                                ''observables/rmsd'' \<mapsto> SparseGrp [30] [1]]],
               rec_grps = Map.empty\<rparr>]\<rparr>"

section \<open>Properties: contigs\<close>

lemma scan_continuations_iff:
  "scan_continuations p cs b \<longleftrightarrow> b \<or> p \<in> set cs"
  by (induction cs arbitrary: b) auto

lemma check_continuations_iff:
  "check_continuations ps cs \<longleftrightarrow> list_all (\<lambda>p. p \<in> set cs) ps"
  by (induction ps) (auto simp: scan_continuations_iff)

lemma run_idx_continuations_all:
  "list_all P (run_idx_continuations rs) \<longleftrightarrow> (\<forall>i. Suc i < length rs \<longrightarrow> P (rs ! Suc i, rs ! i))"
  unfolding run_idx_continuations_def list_all_iff
  by (auto simp: less_diff_conv)

text \<open>
  Claim C2. On an archive whose continuation edges are \<open>cs\<close>, \<^verbatim>\<open>is_run_contig\<close> answers
  true exactly when every pair (\<open>rs[i+1]\<close>, \<open>rs[i]\<close>) of consecutive runs is an edge. A
  single run is a contig. Edges are directed from the later run to the earlier one: with
  the edges (1, 0) and (2, 1), the sequence 0, 1, 2 is a contig, and neither 0, 2 nor
  2, 1, 0 is.
\<close>

theorem is_run_contig_iff:
  assumes "continuations_ds (settings a) = Some cs"
  shows "is_run_contig a rs = Inr (\<forall>i. Suc i < length rs \<longrightarrow> (rs ! Suc i, rs ! i) \<in> set cs)
       \<and> is_run_contig a [r] = Inr True
       \<and> (set cs = {(1, 0), (2, 1)} \<longrightarrow>
            is_run_contig a [0, 1, 2] = Inr True \<and>
            is_run_contig a [0, 2] = Inr False \<and>
            is_run_contig a [2, 1, 0] = Inr False)"
proof -
  have gen: "is_run_contig a xs = Inr (\<forall>i. Suc i < length xs \<longrightarrow> (xs ! Suc i, xs ! i) \<in> set cs)" for xs
    using assms by (simp add: is_run_contig_def check_continuations_iff run_idx_continuations_all)
  have one: "is_run_contig a [r] = Inr True"
    by (simp add: gen)
  have ex: "is_run_contig a [0, 1, 2] = Inr True \<and> is_run_contig a [0, 2] = Inr False
      \<and> is_run_contig a [2, 1, 0] = Inr False" if "set cs = {(1, 0), (2, 1)}"
    using assms that
    by (simp add: is_run_contig_def check_continuations_iff run_idx_continuations_def
        upt_rec numeral_nat)
  show ?thesis using gen one ex by blast
qed

theorem is_run_contig_iff_witness:
  "is_run_contig chain_archive [0, 1, 2] = Inr True
   \<and> is_run_contig chain_archive [0, 2] = Inr False
   \<and> is_run_contig chain_archive [2, 1, 0] = Inr False
   \<and> is_run_contig chain_archive [1] = Inr True"
proof -
  have c: "continuations_ds (settings chain_archive) = Some [(1, 0), (2, 1)]"
    by (simp add: chain_archive_def base_settings_def)
  have s: "set [(1::nat, 0::nat), (2, 1)] = {(1, 0), (2, 1)}" by simp
  from is_run_contig_iff [OF c, of "[0, 1, 2]" 1] s show ?thesis by blast
qed

section \<open>Properties: the schema clone\<close>

text \<open>
  Claim C7 says that the clone has no continuation edges. The clone is a copy of the whole
  settings group, made before \<^verbatim>\<open>_init_continuations\<close> runs, and that call is made on the
  archive being cloned, not on the new one: for every archive the clone holds the same
  continuation edges as its source did, and the clone of the three-run chain still holds
  the edges (1, 0) and (2, 1).
\<close>

theorem clone_keeps_continuations:
  "(\<exists>new src. clone a ''x'' = Inr (new, src)
       \<and> continuations_ds (settings new) = continuations_ds (settings a)
       \<and> runs new = [])
   \<and> (\<exists>new src. clone chain_archive ''x'' = Inr (new, src)
       \<and> continuations_ds (settings new) = Some [(1, 0), (2, 1)])"
  by (simp add: clone_def chain_archive_def base_settings_def)

text \<open>What the clone does copy: topology, units and settings, and no run.\<close>

lemma clone_copies_settings:
  "mode \<in> set [''w'', ''w-'', ''x''] \<Longrightarrow>
   \<exists>new src. clone a mode = Inr (new, src) \<and> settings new = settings a \<and> runs new = []
     \<and> topology new = topology a \<and> units new = units a"
  by (simp add: clone_def)

text \<open>
  Claim C10. Cloning an archive that has continuation edges, in one of the file creation
  modes, changes the archive itself: afterwards its continuation dataset is empty, and
  the archive is otherwise what it was (topology, units, runs and every other setting).
\<close>

theorem clone_resets_source_continuations:
  assumes "mode \<in> set [''w'', ''w-'', ''x'']"
    and "continuations_ds (settings a) = Some cs" and "cs \<noteq> []"
  shows "\<exists>new src. clone a mode = Inr (new, src)
           \<and> continuations_ds (settings src) = Some []
           \<and> src = a\<lparr>settings := (settings a)\<lparr>continuations_ds := Some []\<rparr>\<rparr>
           \<and> topology src = topology a \<and> units src = units a \<and> runs src = runs a
           \<and> sparse_fields_ds (settings src) = sparse_fields_ds (settings a)
           \<and> field_feature_shapes_grp (settings src) = field_feature_shapes_grp (settings a)
           \<and> field_feature_dtypes_grp (settings src) = field_feature_dtypes_grp (settings a)
           \<and> record_fields_grp (settings src) = record_fields_grp (settings a)
           \<and> n_dims (settings src) = n_dims (settings a)
           \<and> n_atoms (settings src) = n_atoms (settings a)
           \<and> main_rep_idxs (settings src) = main_rep_idxs (settings a)
           \<and> alt_reps_idxs (settings src) = alt_reps_idxs (settings a)"
  using assms by (simp add: clone_def init_continuations_def)

theorem clone_resets_source_continuations_witness:
  "continuations_ds (settings chain_archive) = Some [(1, 0), (2, 1)]
   \<and> (\<exists>new src. clone chain_archive ''x'' = Inr (new, src)
         \<and> continuations_ds (settings src) = Some []
         \<and> runs src = runs chain_archive)"
proof -
  have m: "''x'' \<in> set [''w'', ''w-'', ''x'']" by simp
  have c: "continuations_ds (settings chain_archive) = Some [(1, 0), (2, 1)]"
    by (simp add: chain_archive_def base_settings_def)
  have n: "[(1::nat, 0::nat), (2, 1)] \<noteq> []" by simp
  from clone_resets_source_continuations [OF m c n] c show ?thesis by blast
qed

section \<open>Properties: sparse field flags\<close>

text \<open>
  Claim C9 says that adding a flag that is already registered is a no-op with a warning.
  The warning is issued and nothing is raised, but the method goes on to resize the
  dataset and to write the path at its end: the stored list gets the path a second time,
  and the archive is not what it was.
\<close>

theorem add_sparse_field_flag_registered:
  assumes "field_path \<in> set (sparse_fields_ds (settings a))"
  shows "fst (add_sparse_field_flag a field_path) \<noteq> []
       \<and> sparse_fields_ds (settings (snd (add_sparse_field_flag a field_path)))
           = sparse_fields_ds (settings a) @ [field_path]
       \<and> snd (add_sparse_field_flag a field_path) \<noteq> a"
proof -
  have "sparse_fields_ds (settings (snd (add_sparse_field_flag a field_path)))
           = sparse_fields_ds (settings a) @ [field_path]"
    by (simp add: add_sparse_field_flag_def Let_def)
  moreover from this have "snd (add_sparse_field_flag a field_path) \<noteq> a"
    by (metis append_self_conv list.distinct(1))
  moreover have "fst (add_sparse_field_flag a field_path) \<noteq> []"
    using assms by (simp add: add_sparse_field_flag_def Let_def)
  ultimately show ?thesis by blast
qed

theorem add_sparse_field_flag_registered_witness:
  "''observables/rmsd'' \<in> set (sparse_fields_ds (settings chain_archive))
   \<and> sparse_fields_ds (settings (snd (add_sparse_field_flag chain_archive ''observables/rmsd'')))
       = [''observables/rmsd'', ''observables/rmsd'']"
proof -
  have m: "''observables/rmsd'' \<in> set (sparse_fields_ds (settings chain_archive))"
    by (simp add: chain_archive_def base_settings_def)
  have s: "sparse_fields_ds (settings chain_archive) = [''observables/rmsd'']"
    by (simp add: chain_archive_def base_settings_def)
  from add_sparse_field_flag_registered [OF m] m s show ?thesis by simp
qed

section \<open>Properties: continuation edges\<close>

text \<open>
  Claim C8 says that \<^verbatim>\<open>add_continuation\<close> fails when the base run does not exist. It
  does not: on the three-run chain, the edge (2, 7) to a run 7 that does not exist is
  appended.
\<close>

theorem add_continuation_unchecked_counterexample:
  "7 \<notin> set (run_idxs chain_archive)
   \<and> (\<exists>a'. add_continuation chain_archive 2 7 = Inr a'
          \<and> continuations_ds (settings a') = Some [(1, 0), (2, 1), (2, 7)])"
  by (simp add: add_continuation_def run_idxs_def chain_archive_def base_settings_def)

lemma set_run_kwargs_settings [simp]: "settings (set_run_kwargs a i kw) = settings a"
  unfolding set_run_kwargs_def
  by (induction kw arbitrary: a) (auto split: prod.splits)

lemma set_run_kwargs_length [simp]: "length (runs (set_run_kwargs a i kw)) = length (runs a)"
  unfolding set_run_kwargs_def
  by (induction kw arbitrary: a) (auto split: prod.splits)

lemma add_walker_fields_ok:
  "distinct (map fst grp @ map fst (filter (\<lambda>item. snd item \<noteq> None) items)) \<Longrightarrow>
   add_walker_fields items grp
     = Inr (grp @ map (\<lambda>item. (fst item, the (snd item)))
                    (filter (\<lambda>item. snd item \<noteq> None) items))"
proof (induction items arbitrary: grp)
  case Nil
  then show ?case by simp
next
  case (Cons item items)
  obtain k v where item: "item = (k, v)" by (cases item)
  show ?case
  proof (cases v)
    case None
    with Cons item show ?thesis by simp
  next
    case (Some x)
    from Cons.prems item Some have fresh: "k \<notin> set (map fst grp)" by auto
    from Cons.prems item Some
    have "distinct (map fst (grp @ [(k, x)]) @ map fst (filter (\<lambda>item. snd item \<noteq> None) items))"
      by auto
    from Cons.IH [OF this] fresh item Some show ?thesis by simp
  qed
qed

lemma add_init_walkers_ok:
  "list_all walker_names_differ walkers \<Longrightarrow>
   add_init_walkers walkers grps = Inr (grps @ map stored_walker walkers)"
proof (induction walkers arbitrary: grps)
  case Nil
  then show ?case by simp
next
  case (Cons w ws)
  from Cons.prems have w: "walker_names_differ w" and ws: "list_all walker_names_differ ws"
    by simp_all
  from w have "distinct (map fst [(WEIGHTS, fst w)]
                 @ map fst (filter (\<lambda>item. snd item \<noteq> None) (snd w)))"
    by (simp add: walker_names_differ_def)
  from add_walker_fields_ok [OF this]
  have "add_walker_fields (snd w) [(WEIGHTS, fst w)] = Inr (stored_walker w)"
    by (simp add: stored_walker_def)
  with Cons.IH [OF ws] show ?case by simp
qed

text \<open>
  A walker whose state has a field called \<^verbatim>\<open>weights\<close>: \<^verbatim>\<open>new_run\<close> raises after the run
  group and the walker's weight were created, and they stay in the archive.
\<close>

lemma new_run_walker_name_clash:
  "new_run chain_archive [(1, [(''weights'', Some 5)])] None []
   = Inl (ValueError,
          chain_archive\<lparr>runs := runs chain_archive @
            [\<lparr>run_attrs = Map.empty, init_walkers = [[(''weights'', 1)]],
              trajectories = [], rec_grps = Map.empty\<rparr>]\<rparr>)"
  by (simp add: new_run_def WEIGHTS_def)

text \<open>
  Claim C8, amended. On an archive that has its continuation dataset,
  \<^verbatim>\<open>add_continuation\<close> appends the edge (continuation run, base run) to the dataset
  whatever the two indices are. The check that the base run exists is made by
  \<^verbatim>\<open>new_run\<close>: asked to continue a run that is not a run of the archive it raises
  \<^verbatim>\<open>ValueError\<close> and leaves the archive as it was; asked to continue an existing run,
  with initial walkers whose datasets have different names, it creates the next run, with
  these walkers stored, and appends the edge from the new run to the base run.
\<close>

theorem add_continuation_new_run:
  assumes "continuations_ds (settings a) = Some cs"
  shows "add_continuation a continuation_run base_run =
           Inr (a\<lparr>settings := (settings a)\<lparr>continuations_ds :=
                  Some (cs @ [(continuation_run, base_run)])\<rparr>\<rparr>)
       \<and> (base_run \<notin> set (run_idxs a) \<longrightarrow>
            new_run a walkers (Some base_run) kwargs = Inl (ValueError, a))
       \<and> (base_run \<in> set (run_idxs a) \<and> list_all walker_names_differ walkers \<longrightarrow>
            (\<exists>a'. new_run a walkers (Some base_run) kwargs = Inr a'
                 \<and> continuations_ds (settings a') = Some (cs @ [(num_runs a, base_run)])
                 \<and> num_runs a' = Suc (num_runs a)
                 \<and> take (num_runs a) (runs a') = runs a
                 \<and> init_walkers (runs a' ! num_runs a) = map stored_walker walkers))"
proof -
  have 1: "add_continuation a continuation_run base_run =
           Inr (a\<lparr>settings := (settings a)\<lparr>continuations_ds :=
                  Some (cs @ [(continuation_run, base_run)])\<rparr>\<rparr>)"
    using assms by (simp add: add_continuation_def)
  have 2: "new_run a walkers (Some base_run) kwargs = Inl (ValueError, a)"
    if "base_run \<notin> set (run_idxs a)"
    using that by (simp add: new_run_def)
  have 3: "\<exists>a'. new_run a walkers (Some base_run) kwargs = Inr a'
                 \<and> continuations_ds (settings a') = Some (cs @ [(num_runs a, base_run)])
                 \<and> num_runs a' = Suc (num_runs a)
                 \<and> take (num_runs a) (runs a') = runs a
                 \<and> init_walkers (runs a' ! num_runs a) = map stored_walker walkers"
    if b: "base_run \<in> set (run_idxs a)" and w: "list_all walker_names_differ walkers"
  proof -
    define n where "n = length (runs a)"
    define a1 where
      "a1 = a\<lparr>runs := runs a @ [\<lparr>run_attrs = Map.empty, init_walkers = map stored_walker walkers,
                                   trajectories = [], rec_grps = Map.empty\<rparr>]\<rparr>"
    define a2 where
      "a2 = a1\<lparr>runs := (runs a1)[n := (runs a1 ! n)\<lparr>run_attrs :=
                 (run_attrs (runs a1 ! n))(RUN_IDX \<mapsto> IntAttr n)\<rparr>]\<rparr>"
    define a3 where
      "a3 = a2\<lparr>settings := (settings a2)\<lparr>continuations_ds := Some (cs @ [(n, base_run)])\<rparr>\<rparr>"
    have walkers: "add_init_walkers walkers [] = Inr (map stored_walker walkers)"
      using add_init_walkers_ok [OF w, of "[]"] by simp
    have init: "add_run_init a1 n (Some base_run) = Inr a3"
      using assms
      by (simp add: add_run_init_def add_continuation_def a1_def a2_def a3_def n_def Let_def)
    have run: "new_run a walkers (Some base_run) kwargs = Inr (set_run_kwargs a3 n kwargs)"
      using b walkers init
      by (simp add: new_run_def next_run_idx_def num_runs_def a1_def n_def)
    have runs3: "runs a3 = (runs a @ [\<lparr>run_attrs = Map.empty,
                     init_walkers = map stored_walker walkers,
                     trajectories = [], rec_grps = Map.empty\<rparr>])
                   [n := \<lparr>run_attrs = [RUN_IDX \<mapsto> IntAttr n],
                          init_walkers = map stored_walker walkers,
                          trajectories = [], rec_grps = Map.empty\<rparr>]"
      by (simp add: a3_def a2_def a1_def n_def)
    have kw: "take n (runs (set_run_kwargs a3 n kw)) = take n (runs a3)
              \<and> init_walkers (runs (set_run_kwargs a3 n kw) ! n) = init_walkers (runs a3 ! n)
              \<and> length (runs (set_run_kwargs a3 n kw)) = length (runs a3)" for kw
      unfolding set_run_kwargs_def
    proof (induction kw arbitrary: a3)
      case Nil
      then show ?case by simp
    next
      case (Cons item kw)
      obtain key val where item: "item = (key, val)" by (cases item)
      show ?case
      proof (cases "key \<noteq> RUN_IDX")
        case True
        let ?b = "a3\<lparr>runs := (runs a3)[n := (runs a3 ! n)\<lparr>run_attrs :=
                       (run_attrs (runs a3 ! n))(key \<mapsto> val)\<rparr>]\<rparr>"
        have "take n (runs ?b) = take n (runs a3)" by simp
        moreover have "init_walkers (runs ?b ! n) = init_walkers (runs a3 ! n)"
          by (cases "n < length (runs a3)") (simp_all add: list_update_beyond)
        moreover have "length (runs ?b) = length (runs a3)" by simp
        ultimately show ?thesis using Cons [of ?b] item True by simp
      next
        case False
        with Cons [of a3] item show ?thesis by simp
      qed
    qed
    have "continuations_ds (settings (set_run_kwargs a3 n kwargs)) = Some (cs @ [(n, base_run)])"
      by (simp add: a3_def)
    moreover have "num_runs (set_run_kwargs a3 n kwargs) = Suc n"
      by (simp add: num_runs_def a3_def a2_def a1_def n_def)
    moreover have "take n (runs (set_run_kwargs a3 n kwargs)) = runs a"
      using kw [of kwargs] by (simp add: runs3 n_def)
    moreover have "init_walkers (runs (set_run_kwargs a3 n kwargs) ! n) = map stored_walker walkers"
      using kw [of kwargs] by (simp add: runs3 n_def)
    ultimately show ?thesis using run by (simp add: num_runs_def n_def)
  qed
  from 1 2 3 show ?thesis by blast
qed

theorem add_continuation_new_run_witness:
  "add_continuation chain_archive 2 7 =
     Inr (chain_archive\<lparr>settings := (settings chain_archive)\<lparr>continuations_ds :=
            Some ([(1, 0), (2, 1)] @ [(2, 7)])\<rparr>\<rparr>)
   \<and> new_run chain_archive [(1, [(''positions'', Some 5), (''velocities'', None)])] (Some 7) []
       = Inl (ValueError, chain_archive)
   \<and> (\<exists>a'. new_run chain_archive [(1, [(''positions'', Some 5), (''velocities'', None)])]
             (Some 2) [] = Inr a'
          \<and> continuations_ds (settings a') = Some ([(1, 0), (2, 1)] @ [(num_runs chain_archive, 2)])
          \<and> num_runs a' = Suc (num_runs chain_archive)
          \<and> take (num_runs chain_archive) (runs a') = runs chain_archive
          \<and> init_walkers (runs a' ! num_runs chain_archive)
              = map stored_walker [(1, [(''positions'', Some 5), (''velocities'', None)])])"
proof -
  have c: "continuations_ds (settings chain_archive) = Some [(1, 0), (2, 1)]"
    by (simp add: chain_archive_def base_settings_def)
  have i: "7 \<notin> set (run_idxs chain_archive)" "2 \<in> set (run_idxs chain_archive)"
    by (simp_all add: run_idxs_def chain_archive_def)
  have w: "list_all walker_names_differ [(1 :: nat, [(''positions'', Some (5 :: nat)), (''velocities'', None)])]"
    by (simp add: walker_names_differ_def WEIGHTS_def)
  from add_continuation_new_run
         [OF c, of 2 7 "[(1, [(''positions'', Some 5), (''velocities'', None)])]" "[]"]
       add_continuation_new_run
         [OF c, of 2 2 "[(1, [(''positions'', Some 5), (''velocities'', None)])]" "[]"] i w
  show ?thesis by blast
qed

section \<open>Properties: feature shape and dtype declarations\<close>

lemma json_dumps_descr_not_None: "json_dumps_descr d \<noteq> NONE_STR"
  by (simp add: json_dumps_descr_def NONE_STR_def)

text \<open>A declaration that reads as a shape or a dtype cannot be replaced.\<close>

lemma set_field_feature_shape_declared:
  "field_feature_shapes a p = Some (Some s) \<Longrightarrow> set_field_feature_shape a p s' = Inl AttributeError"
  by (simp add: set_field_feature_shape_def)

lemma set_field_feature_dtype_declared:
  "field_feature_dtypes a p = Some (Some s) \<Longrightarrow> set_field_feature_dtype a p d = Inl AttributeError"
  by (simp add: set_field_feature_dtype_def)

text \<open>
  Over a deferred declaration, a dtype and a shape with at least one dimension are
  accepted once and are fixed from then on.
\<close>

lemma set_field_feature_shape_deferred:
  assumes "field_feature_shapes a p = Some None" and "s \<noteq> []"
  shows "\<exists>a'. set_field_feature_shape a p s = Inr a' \<and> field_feature_shapes a' p = Some (Some s)
           \<and> set_field_feature_shape a' p s' = Inl AttributeError"
proof -
  define a' where "a' = a\<lparr>settings := (settings a)\<lparr>field_feature_shapes_grp :=
      (field_feature_shapes_grp (settings a))(p \<mapsto> ShapeArray s)\<rparr>\<rparr>"
  have 1: "set_field_feature_shape a p s = Inr a'"
    using assms(1) by (simp add: set_field_feature_shape_def a'_def)
  have 2: "field_feature_shapes a' p = Some (Some s)"
    using assms(2) by (cases s) (simp_all add: field_feature_shapes_def a'_def)
  from 1 2 set_field_feature_shape_declared [OF 2] show ?thesis by blast
qed

lemma set_field_feature_dtype_deferred:
  assumes "field_feature_dtypes a p = Some None"
  shows "\<exists>a'. set_field_feature_dtype a p d = Inr a'
           \<and> field_feature_dtypes a' p = Some (Some (json_dumps_descr d))
           \<and> set_field_feature_dtype a' p d' = Inl AttributeError"
proof -
  define a' where "a' = a\<lparr>settings := (settings a)\<lparr>field_feature_dtypes_grp :=
      (field_feature_dtypes_grp (settings a))(p \<mapsto> json_dumps_descr d)\<rparr>\<rparr>"
  have 1: "set_field_feature_dtype a p d = Inr a'"
    using assms by (simp add: set_field_feature_dtype_def a'_def)
  have 2: "field_feature_dtypes a' p = Some (Some (json_dumps_descr d))"
    by (simp add: field_feature_dtypes_def a'_def json_dumps_descr_not_None)
  from 1 2 set_field_feature_dtype_declared [OF 2] show ?thesis by blast
qed

text \<open>
  Claim C6 says that a declaration made over a deferred one is fixed for good. The empty
  feature shape \<open>()\<close> (the shape of a field with one number per frame, handed over as a
  one-dimensional array) is not: it is stored as an array without elements, which the
  property \<^verbatim>\<open>field_feature_shapes\<close> reads as \<^verbatim>\<open>None\<close> again, so that the next
  declaration, whatever its shape, is accepted and replaces it.
\<close>

theorem set_field_feature_shape_empty_not_fixed:
  assumes "field_feature_shapes a p = Some None"
  shows "\<exists>a1 a2. set_field_feature_shape a p [] = Inr a1
           \<and> field_feature_shapes_grp (settings a1) p = Some (ShapeArray [])
           \<and> field_feature_shapes a1 p = Some None
           \<and> set_field_feature_shape a1 p s = Inr a2
           \<and> field_feature_shapes_grp (settings a2) p = Some (ShapeArray s)"
proof -
  define a1 where "a1 = a\<lparr>settings := (settings a)\<lparr>field_feature_shapes_grp :=
      (field_feature_shapes_grp (settings a))(p \<mapsto> ShapeArray [])\<rparr>\<rparr>"
  define a2 where "a2 = a1\<lparr>settings := (settings a1)\<lparr>field_feature_shapes_grp :=
      (field_feature_shapes_grp (settings a1))(p \<mapsto> ShapeArray s)\<rparr>\<rparr>"
  have 1: "set_field_feature_shape a p [] = Inr a1"
    using assms by (simp add: set_field_feature_shape_def a1_def)
  have 2: "field_feature_shapes_grp (settings a1) p = Some (ShapeArray [])"
    by (simp add: a1_def)
  have 3: "field_feature_shapes a1 p = Some None"
    by (simp add: field_feature_shapes_def 2)
  have 4: "set_field_feature_shape a1 p s = Inr a2"
    using 3 by (simp add: set_field_feature_shape_def a2_def)
  have 5: "field_feature_shapes_grp (settings a2) p = Some (ShapeArray s)"
    by (simp add: a2_def)
  from 1 2 3 4 5 show ?thesis by blast
qed

theorem set_field_feature_shape_empty_not_fixed_witness:
  "field_feature_shapes chain_archive ''observables/rmsd'' = Some None
   \<and> (\<exists>a1 a2. set_field_feature_shape chain_archive ''observables/rmsd'' [] = Inr a1
         \<and> set_field_feature_shape a1 ''observables/rmsd'' [3] = Inr a2
         \<and> field_feature_shapes a2 ''observables/rmsd'' = Some (Some [3]))"
proof -
  have d: "field_feature_shapes chain_archive ''observables/rmsd'' = Some None"
    by (simp add: field_feature_shapes_def chain_archive_def base_settings_def)
  from set_field_feature_shape_empty_not_fixed [OF d, of "[3]"]
  obtain a1 a2 where
    "set_field_feature_shape chain_archive ''observables/rmsd'' [] = Inr a1"
    "set_field_feature_shape a1 ''observables/rmsd'' [3] = Inr a2"
    "field_feature_shapes_grp (settings a2) ''observables/rmsd'' = Some (ShapeArray [3])"
    by blast
  moreover from this have "field_feature_shapes a2 ''observables/rmsd'' = Some (Some [3])"
    by (simp add: field_feature_shapes_def)
  ultimately show ?thesis using d by blast
qed

section \<open>Properties: record groups\<close>

lemma efold_invariant:
  assumes "I s"
    and "\<And>x s. x \<in> set xs \<Longrightarrow> I s \<Longrightarrow> f x s = Inr (g x s) \<and> I (g x s)"
  shows "efold f xs s = Inr (fold g xs s) \<and> I (fold g xs s)"
  using assms
proof (induction xs arbitrary: s)
  case Nil
  then show ?case by simp
next
  case (Cons x xs)
  have 1: "f x s = Inr (g x s)" and 2: "I (g x s)"
    using Cons.prems by auto
  have "efold f xs (g x s) = Inr (fold g xs (g x s)) \<and> I (fold g xs (g x s))"
    by (rule Cons.IH [OF 2]) (use Cons.prems(2) in auto)
  with 1 show ?case by simp
qed

lemma extend_dset_append:
  "field_accepts d x \<Longrightarrow> extend_dset d (np_array1 x) = Inr (dset_append d x)"
  by (cases d) (auto simp: field_accepts_def extend_dset_def np_array1_def Let_def)

lemma dset_kind_append [simp]: "dset_kind (dset_append d x) = dset_kind d"
  by (cases d) simp_all

lemma records_grp_set [simp]:
  "r < length (runs a) \<Longrightarrow> records_grp (set_records_grp a r key g) r key = Inr g"
  by (simp add: records_grp_def set_records_grp_def)

lemma set_records_grp_twice [simp]:
  "r < length (runs a) \<Longrightarrow>
   set_records_grp (set_records_grp a r key g) r key g' = set_records_grp a r key g'"
  by (simp add: set_records_grp_def)

lemma set_records_grp_length [simp]: "length (runs (set_records_grp a r key g)) = length (runs a)"
  by (simp add: set_records_grp_def)

lemma set_records_grp_settings [simp]: "settings (set_records_grp a r key g) = settings a"
  by (simp add: set_records_grp_def)

lemma extend_field_step:
  assumes "r < length (runs a)" and "fields_ds g f = Some d" and "field_accepts d x"
  shows "extend_run_record_data_field (set_records_grp a r key g) r key f (np_array1 x)
         = Inr (set_records_grp a r key (grp_put_field (f, x) g))"
  using assms
  by (simp add: extend_run_record_data_field_def extend_dset_append grp_put_field_def)

lemma same_kinds_refl [simp]: "same_kinds g g"
  by (simp add: same_kinds_def)

lemma same_kinds_put:
  assumes "same_kinds g g'"
  shows "same_kinds g (grp_put_field fx g')"
proof (cases "fields_ds g' (fst fx)")
  case None
  then show ?thesis using assms by (simp add: grp_put_field_def)
next
  case (Some d)
  have eq: "map_option dset_kind (fields_ds g' f) = map_option dset_kind (fields_ds g f)" for f
    using assms by (simp add: same_kinds_def)
  have "map_option dset_kind (fields_ds (grp_put_field fx g') f)
        = map_option dset_kind (fields_ds g f)" for f
  proof (cases "f = fst fx")
    case True
    have "map_option dset_kind (fields_ds (grp_put_field fx g') f) = Some (dset_kind d)"
      using Some True by (simp add: grp_put_field_def)
    also have "\<dots> = map_option dset_kind (fields_ds g' f)"
      using Some True by simp
    finally show ?thesis by (simp add: eq)
  next
    case False
    then show ?thesis using Some by (simp add: grp_put_field_def eq)
  qed
  then show ?thesis by (simp add: same_kinds_def)
qed

lemma same_kinds_accepts:
  assumes "same_kinds g g'" and "fields_ds g f = Some d" and "field_accepts d x"
  shows "\<exists>d'. fields_ds g' f = Some d' \<and> field_accepts d' x"
proof -
  from assms(1,2) have "map_option dset_kind (fields_ds g' f) = Some (dset_kind d)"
    by (simp add: same_kinds_def)
  then obtain d' where "fields_ds g' f = Some d'" "dset_kind d' = dset_kind d" by auto
  with assms(3) show ?thesis by (simp add: field_accepts_def)
qed

lemma extend_record_dict_sim:
  assumes r: "r < length (runs a)" and k: "same_kinds g g'" and ok: "record_accepted g rd"
  shows "extend_record_dict r key rd (set_records_grp a r key g')
           = Inr (set_records_grp a r key (fold grp_put_field rd g'))
         \<and> same_kinds g (fold grp_put_field rd g')"
proof -
  show ?thesis using k ok
  proof (induction rd arbitrary: g')
    case Nil
    then show ?case by (simp add: extend_record_dict_def)
  next
    case (Cons fx rd)
    obtain f x where fx: "fx = (f, x)" by (cases fx)
    from Cons.prems(2) fx obtain d where d: "fields_ds g f = Some d" "field_accepts d x"
      by (auto simp: record_accepted_def split: option.splits)
    from same_kinds_accepts [OF Cons.prems(1) d] obtain d' where
      d': "fields_ds g' f = Some d'" "field_accepts d' x" by blast
    have step: "extend_run_record_data_field (set_records_grp a r key g') r key f (np_array1 x)
         = Inr (set_records_grp a r key (grp_put_field (f, x) g'))"
      by (rule extend_field_step [OF r d'])
    have k': "same_kinds g (grp_put_field (f, x) g')"
      by (rule same_kinds_put [OF Cons.prems(1)])
    have ok': "record_accepted g rd"
      using Cons.prems(2) by (simp add: record_accepted_def)
    from Cons.IH [OF k' ok'] step fx show ?case
      by (simp add: extend_record_dict_def)
  qed
qed

lemma extend_records_sim:
  assumes r: "r < length (runs a)" and k: "same_kinds g g'"
    and ok: "list_all (record_accepted g) recs"
  shows "efold (extend_record_dict r key) recs (set_records_grp a r key g')
           = Inr (set_records_grp a r key (fold (\<lambda>rd. fold grp_put_field rd) recs g'))
         \<and> same_kinds g (fold (\<lambda>rd. fold grp_put_field rd) recs g')"
  using k ok
proof (induction recs arbitrary: g')
  case Nil
  then show ?case by simp
next
  case (Cons rd recs)
  from Cons.prems(2) have ok1: "record_accepted g rd" and ok2: "list_all (record_accepted g) recs"
    by simp_all
  from extend_record_dict_sim [OF r Cons.prems(1) ok1, of key]
  have 1: "extend_record_dict r key rd (set_records_grp a r key g')
           = Inr (set_records_grp a r key (fold grp_put_field rd g'))"
    and 2: "same_kinds g (fold grp_put_field rd g')" by blast+
  from Cons.IH [OF 2 ok2] 1 show ?case by simp
qed

lemma emap_total:
  assumes "\<And>x. x \<in> set xs \<Longrightarrow> f x = Inr (g x)"
  shows "emap f xs = Inr (map g xs)"
  using assms by (induction xs) simp_all

lemma table_column_tabular: "tabular d \<Longrightarrow> table_column d = Inr (dset_column d)"
proof (cases d)
  case (VLenDS rows)
  then show ?thesis by (simp add: table_column_def)
next
  case (FixedDS fd rows)
  assume t: "tabular d"
  with FixedDS obtain d0 where fd: "fd = [d0]" and pos: "0 < d0"
    and rows: "list_all (\<lambda>v. length v = d0) rows"
    by (cases fd) (auto simp: tabular_def)
  show ?thesis
  proof (cases "1 < d0")
    case True
    then show ?thesis using FixedDS fd by (simp add: table_column_def)
  next
    case False
    have "emap (\<lambda>v. case v of [] \<Rightarrow> Inl IndexError | x # xs \<Rightarrow> Inr (Scalar x)) rows
          = Inr (map (\<lambda>v. Scalar (hd v)) rows)"
    proof (rule emap_total)
      fix v assume "v \<in> set rows"
      with rows pos have "v \<noteq> []" by (auto simp: list_all_iff)
      then show "(case v of [] \<Rightarrow> Inl IndexError | x # xs \<Rightarrow> Inr (Scalar x)) = Inr (Scalar (hd v))"
        by (cases v) simp_all
    qed
    with False FixedDS fd show ?thesis by (simp add: table_column_def)
  qed
qed

lemma table_cell_kind: "dset_kind d' = dset_kind d \<Longrightarrow> table_cell d' x = table_cell d x"
  by (simp add: table_cell_def)

lemma dset_append_tabular:
  assumes "tabular d" and "field_accepts d x" and "nd_ok x"
  shows "tabular (dset_append d x)"
    and "dset_column (dset_append d x) = dset_column d @ [table_cell d x]"
    and "length (dset_rows (dset_append d x)) = Suc (length (dset_rows d))"
  using assms
  by (cases d; auto simp: tabular_def field_accepts_def nd_ok_def table_cell_def)+

lemma length_dset_column [simp]: "length (dset_column d) = length (dset_rows d)"
  by (cases d) simp_all

lemma fold_update_map_of:
  "map_of (fold (\<lambda>n acc. AList.update n (c n) acc) ns acc) k
     = (if k \<in> set ns then Some (c k) else map_of acc k)"
  by (induction ns arbitrary: acc) (auto simp: update_conv')

lemma fold_update_distinct:
  "distinct (map fst acc) \<Longrightarrow> distinct (map fst (fold (\<lambda>n acc. AList.update n (c n) acc) ns acc))"
  by (induction ns arbitrary: acc) (auto simp: distinct_update)

lemma fold_update_items_map_of:
  "distinct (map fst xs) \<Longrightarrow>
   map_of (fold (\<lambda>(k, v) acc. AList.update k (h v) acc) xs acc) k
     = (case map_of xs k of Some v \<Rightarrow> Some (h v) | None \<Rightarrow> map_of acc k)"
proof (induction xs arbitrary: acc)
  case Nil
  then show ?case by simp
next
  case (Cons kv xs)
  obtain k0 v0 where kv: "kv = (k0, v0)" by (cases kv)
  from Cons.prems kv have d: "distinct (map fst xs)" and n: "k0 \<notin> fst ` set xs" by auto
  from n have none: "map_of xs k0 = None" by (simp add: map_of_eq_None_iff)
  show ?case using Cons.IH [OF d] kv none
    by (auto simp: update_conv' split: option.splits)
qed

lemma convert_columns:
  assumes r: "r < length (runs a)" and grp: "rec_grps (runs a ! r) key = Some g"
    and man: "record_fields_grp (settings a) key = Some names"
    and cols: "\<And>n. n \<in> set names \<Longrightarrow> \<exists>d. fields_ds g n = Some d \<and> tabular d \<and> dset_column d = colf n"
  shows "convert_record_fields_to_table_columns a r key
         = Inr (fold (\<lambda>n acc. AList.update n (colf n) acc) names [])"
proof -
  have one: "convert_record_field_to_table_column a r key n = Inr (colf n)" if "n \<in> set names" for n
  proof -
    from cols [OF that] obtain d where "fields_ds g n = Some d" "tabular d" "dset_column d = colf n"
      by blast
    then show ?thesis using r grp
      by (simp add: convert_record_field_to_table_column_def records_grp_def table_column_tabular)
  qed
  have "efold (\<lambda>record_field acc.
                ebind (convert_record_field_to_table_column a r key record_field)
                  (\<lambda>column. Inr (AList.update record_field column acc))) names []
        = Inr (fold (\<lambda>n acc. AList.update n (colf n) acc) names []) \<and> True"
    by (rule efold_invariant) (simp_all add: one)
  then show ?thesis using man
    by (simp add: convert_record_fields_to_table_columns_def record_fields_def)
qed

lemma make_record_ok:
  assumes dist: "distinct (map fst cols)"
    and len: "\<And>n col. (n, col) \<in> set cols \<Longrightarrow> idx < length col"
    and names: "\<And>n. n \<in> set names \<Longrightarrow> \<exists>col. map_of cols n = Some col"
  shows "make_record names cyc cols idx
         = Inr (RecordTuple (cyc ! idx) (map (\<lambda>n. the (map_of cols n) ! idx) names))"
proof -
  let ?rd = "fold (\<lambda>(n, col) acc. AList.update n (col ! idx) acc) cols []"
  have "efold (\<lambda>(record_field, column) record_d.
                     if idx < length column
                     then Inr (AList.update record_field (column ! idx) record_d)
                     else Inl IndexError) cols []
        = Inr (fold (\<lambda>(n, col) acc. AList.update n (col ! idx) acc) cols []) \<and> True"
    by (rule efold_invariant) (auto dest: len)
  moreover have "emap (dict_get ?rd) names = Inr (map (\<lambda>n. the (map_of cols n) ! idx) names)"
  proof (rule emap_total)
    fix n assume "n \<in> set names"
    from names [OF this] obtain col where "map_of cols n = Some col" by blast
    then show "dict_get ?rd n = Inr (the (map_of cols n) ! idx)"
      by (simp add: dict_get_def fold_update_items_map_of [OF dist])
  qed
  ultimately show ?thesis by (simp add: make_record_def)
qed

lemma run_records_read:
  assumes r: "r < length (runs a)" and grp: "rec_grps (runs a ! r) key = Some g"
    and spor: "is_sporadic_records key"
    and cyc: "cycle_idxs_ds g = Some cyc"
    and man: "record_fields_grp (settings a) key = Some names"
    and ne: "names \<noteq> []" and dist: "namedtuple_accepts (key @ ''_Record'') (CYCLE_IDX # names)"
    and cols: "\<And>n. n \<in> set names \<Longrightarrow>
                 \<exists>d. fields_ds g n = Some d \<and> tabular d \<and> dset_column d = colf n
                     \<and> length (colf n) = length cyc"
    and cycles: "num_run_cycles a r = Inr m"
  shows "run_records a r key = Inr (read_spec names cyc colf)"
proof -
  let ?cols = "fold (\<lambda>n acc. AList.update n (colf n) acc) names []"
  have conv: "convert_record_fields_to_table_columns a r key = Inr ?cols"
    by (rule convert_columns [OF r grp man]) (use cols in blast)
  have mo: "map_of ?cols n = (if n \<in> set names then Some (colf n) else None)" for n
    by (simp add: fold_update_map_of)
  have dc: "distinct (map fst ?cols)"
    by (rule fold_update_distinct) simp
  have step: "sporadic_step a key r (None, [], 0) = Inr (Some ?cols, cyc, m)"
    using r grp cyc cycles
    by (simp add: sporadic_step_def conv merge_columns_def records_grp_def)
  have rec: "make_record names cyc ?cols i
             = Inr (RecordTuple (cyc ! i) (map (\<lambda>n. colf n ! i) names))"
    if "i < length cyc" for i
  proof -
    have "make_record names cyc ?cols i
          = Inr (RecordTuple (cyc ! i) (map (\<lambda>n. the (map_of ?cols n) ! i) names))"
    proof (rule make_record_ok [OF dc])
      fix n col assume "(n, col) \<in> set ?cols"
      then have "map_of ?cols n = Some col" using dc by simp
      then have "n \<in> set names" "col = colf n" by (auto simp: mo split: if_splits)
      with cols [of n] that show "i < length col" by auto
    next
      fix n assume "n \<in> set names"
      then show "\<exists>col. map_of ?cols n = Some col" by (simp add: mo)
    qed
    moreover have "map (\<lambda>n. the (map_of ?cols n) ! i) names = map (\<lambda>n. colf n ! i) names"
      by (rule map_cong) (simp_all add: mo)
    ultimately show ?thesis by simp
  qed
  have "emap (make_record names cyc ?cols) [0..<length cyc]
        = Inr (map (\<lambda>i. RecordTuple (cyc ! i) (map (\<lambda>n. colf n ! i) names)) [0..<length cyc])"
    by (rule emap_total) (simp add: rec)
  then have "make_records a key cyc (Some ?cols) = Inr (read_spec names cyc colf)"
    using man dist by (simp add: make_records_def run_record_namedtuple_def record_fields_def read_spec_def)
  then show ?thesis using man ne spor step
    by (simp add: run_records_def run_contig_records_def record_fields_def
        run_records_sporadic_def)
qed

lemma field_accepts_kind: "dset_kind d' = dset_kind d \<Longrightarrow> field_accepts d' x = field_accepts d x"
  by (simp add: field_accepts_def)

lemma grp_put_field_cycle [simp]: "cycle_idxs_ds (grp_put_field fx g) = cycle_idxs_ds g"
  by (simp add: grp_put_field_def split: option.splits)

lemma fold_put_field_cycle [simp]: "cycle_idxs_ds (fold grp_put_field rd g) = cycle_idxs_ds g"
  by (induction rd arbitrary: g) simp_all

lemma fold_put_records_cycle [simp]:
  "cycle_idxs_ds (fold (\<lambda>rd. fold grp_put_field rd) recs g) = cycle_idxs_ds g"
  by (induction recs arbitrary: g) simp_all

lemma fold_put_field_lookup:
  "distinct (map fst rd) \<Longrightarrow> fields_ds g n = Some d \<Longrightarrow>
   fields_ds (fold grp_put_field rd g) n
     = Some (case map_of rd n of None \<Rightarrow> d | Some x \<Rightarrow> dset_append d x)"
proof (induction rd arbitrary: g d)
  case Nil
  then show ?case by simp
next
  case (Cons fx rd)
  obtain f x where fx: "fx = (f, x)" by (cases fx)
  from Cons.prems(1) fx have dist: "distinct (map fst rd)" and nf: "f \<notin> fst ` set rd" by auto
  show ?case
  proof (cases "f = n")
    case True
    have g1: "fields_ds (grp_put_field fx g) n = Some (dset_append d x)"
      using Cons.prems(2) True fx by (simp add: grp_put_field_def)
    have none: "map_of rd n = None" using nf True by (simp add: map_of_eq_None_iff)
    from Cons.IH [OF dist g1] none True fx show ?thesis by simp
  next
    case False
    have g1: "fields_ds (grp_put_field fx g) n = Some d"
      using Cons.prems(2) False fx by (simp add: grp_put_field_def split: option.splits)
    from Cons.IH [OF dist g1] False fx show ?thesis by simp
  qed
qed

lemma put_records_column:
  assumes "fields_ds g n = Some d" and "tabular d"
    and "\<And>rd. rd \<in> set recs \<Longrightarrow>
           distinct (map fst rd) \<and> (\<exists>x. map_of rd n = Some x \<and> field_accepts d x \<and> nd_ok x)"
  shows "\<exists>d'. fields_ds (fold (\<lambda>rd. fold grp_put_field rd) recs g) n = Some d' \<and> tabular d'
           \<and> dset_kind d' = dset_kind d
           \<and> dset_column d' = dset_column d @ map (\<lambda>rd. table_cell d (the (map_of rd n))) recs"
  using assms
proof (induction recs arbitrary: g d)
  case Nil
  then show ?case by simp
next
  case (Cons rd recs)
  from Cons.prems(3) [of rd] obtain x where dist: "distinct (map fst rd)"
    and x: "map_of rd n = Some x" "field_accepts d x" "nd_ok x" by auto
  let ?d1 = "dset_append d x"
  have g1: "fields_ds (fold grp_put_field rd g) n = Some ?d1"
    using fold_put_field_lookup [OF dist Cons.prems(1)] x(1) by simp
  have t1: "tabular ?d1" and c1: "dset_column ?d1 = dset_column d @ [table_cell d x]"
    using dset_append_tabular [OF Cons.prems(2) x(2,3)] by blast+
  have k1: "dset_kind ?d1 = dset_kind d" by simp
  have rest: "distinct (map fst rd') \<and> (\<exists>x. map_of rd' n = Some x \<and> field_accepts ?d1 x \<and> nd_ok x)"
    if "rd' \<in> set recs" for rd'
    using Cons.prems(3) [of rd'] that unfolding field_accepts_kind [OF k1] by auto
  from Cons.IH [OF g1 t1 rest] obtain d' where
    d': "fields_ds (fold (\<lambda>rd. fold grp_put_field rd) recs (fold grp_put_field rd g)) n = Some d'"
      "tabular d'" "dset_kind d' = dset_kind ?d1"
      "dset_column d' = dset_column ?d1 @ map (\<lambda>rd. table_cell ?d1 (the (map_of rd n))) recs"
    by blast
  have "map (\<lambda>rd. table_cell ?d1 (the (map_of rd n))) recs
        = map (\<lambda>rd. table_cell d (the (map_of rd n))) recs"
    by (simp add: table_cell_kind [OF k1])
  with d' c1 x(1) show ?case by simp
qed

lemma num_run_cycles_set_records_grp [simp]:
  "num_run_cycles (set_records_grp a r key g) r' = num_run_cycles a r'"
  by (cases "r < length (runs a)"; cases "r' = r")
     (simp_all add: num_run_cycles_def num_traj_frames_def h5_traj_def set_records_grp_def)

lemma extend_cycle_sporadic:
  assumes r: "r < length (runs a)" and grp: "rec_grps (runs a ! r) key = Some g"
    and spor: "is_sporadic_records key" and cyc: "cycle_idxs_ds g = Some cyc"
    and ok: "list_all (record_accepted g) recs"
  shows "extend_cycle_run_group_records a r key c recs
         = Inr (set_records_grp a r key
                  (fold (\<lambda>rd. fold grp_put_field rd) recs
                     (g\<lparr>cycle_idxs_ds := Some (cyc @ replicate (length recs) c)\<rparr>)))
         \<and> same_kinds g (fold (\<lambda>rd. fold grp_put_field rd) recs
                     (g\<lparr>cycle_idxs_ds := Some (cyc @ replicate (length recs) c)\<rparr>))"
proof -
  let ?g1 = "g\<lparr>cycle_idxs_ds := Some (cyc @ replicate (length recs) c)\<rparr>"
  have k: "same_kinds g ?g1" by (simp add: same_kinds_def)
  from extend_records_sim [OF r k ok, of key] r grp spor cyc show ?thesis
    by (simp add: extend_cycle_run_group_records_def records_grp_def)
qed

lemma record_ok_accepted: "record_ok g names rd \<Longrightarrow> record_accepted g rd"
  by (auto simp: record_ok_def record_accepted_def list_all_iff split: option.splits)

lemma record_ok_same_kinds:
  assumes "same_kinds g g'"
  shows "record_ok g' names rd = record_ok g names rd"
proof -
  have "(case fields_ds g' f of None \<Rightarrow> False | Some d \<Rightarrow> field_accepts d x)
        = (case fields_ds g f of None \<Rightarrow> False | Some d \<Rightarrow> field_accepts d x)" for f x
  proof -
    have "map_option dset_kind (fields_ds g' f) = map_option dset_kind (fields_ds g f)"
      using assms by (simp add: same_kinds_def)
    then show ?thesis
      by (cases "fields_ds g' f"; cases "fields_ds g f") (auto simp: field_accepts_def)
  qed
  then show ?thesis by (simp add: record_ok_def)
qed

lemma read_spec_append:
  assumes "\<And>n. n \<in> set names \<Longrightarrow> length (colf n) = length cyc"
  shows "read_spec names (cyc @ replicate (length recs) c)
           (\<lambda>n. colf n @ map (\<lambda>rd. cellf n rd) recs)
         = read_spec names cyc colf
           @ map (\<lambda>rd. RecordTuple c (map (\<lambda>n. cellf n rd) names)) recs"
proof -
  let ?cyc' = "cyc @ replicate (length recs) c"
  let ?col' = "\<lambda>n. colf n @ map (\<lambda>rd. cellf n rd) recs"
  let ?rec = "\<lambda>i. RecordTuple (?cyc' ! i) (map (\<lambda>n. ?col' n ! i) names)"
  have low: "?rec i = RecordTuple (cyc ! i) (map (\<lambda>n. colf n ! i) names)"
    if i: "i < length cyc" for i
  proof -
    have "map (\<lambda>n. ?col' n ! i) names = map (\<lambda>n. colf n ! i) names"
      by (rule map_cong [OF refl]) (simp add: nth_append assms i)
    with i show ?thesis by (simp add: nth_append)
  qed
  have high: "?rec (length cyc + i) = RecordTuple c (map (\<lambda>n. cellf n (recs ! i)) names)"
    if i: "i < length recs" for i
  proof -
    have "map (\<lambda>n. ?col' n ! (length cyc + i)) names = map (\<lambda>n. cellf n (recs ! i)) names"
      by (rule map_cong [OF refl]) (simp add: nth_append assms i)
    with i show ?thesis by (simp add: nth_append)
  qed
  have "map (\<lambda>i. length cyc + i) [0..<length recs] = map (\<lambda>i. i + length cyc) [0..<length recs]"
    by (rule map_cong [OF refl]) simp
  also have "\<dots> = [length cyc..<length recs + length cyc]"
    by (rule map_add_upt)
  finally have shift: "map (\<lambda>i. length cyc + i) [0..<length recs]
                       = [length cyc..<length cyc + length recs]"
    by (simp only: add.commute)
  have "[0..<length cyc + length recs] = [0..<length cyc] @ [length cyc..<length cyc + length recs]"
    by (rule upt_add_eq_append) simp
  then have split: "[0..<length ?cyc'] = [0..<length cyc] @ map (\<lambda>i. length cyc + i) [0..<length recs]"
    unfolding shift by simp
  have 1: "map ?rec [0..<length cyc] = read_spec names cyc colf"
    unfolding read_spec_def
  proof (rule map_cong [OF refl])
    fix i assume "i \<in> set [0..<length cyc]"
    then have "i < length cyc" by simp
    from low [OF this]
    show "?rec i = RecordTuple (cyc ! i) (map (\<lambda>n. colf n ! i) names)" .
  qed
  have "map (?rec \<circ> (\<lambda>i. length cyc + i)) [0..<length recs]
        = map (\<lambda>i. RecordTuple c (map (\<lambda>n. cellf n (recs ! i)) names)) [0..<length recs]"
  proof (rule map_cong [OF refl])
    fix i assume "i \<in> set [0..<length recs]"
    then have "i < length recs" by simp
    from high [OF this]
    show "(?rec \<circ> (\<lambda>i. length cyc + i)) i = RecordTuple c (map (\<lambda>n. cellf n (recs ! i)) names)"
      by (simp only: comp_def)
  qed
  then have "map ?rec (map (\<lambda>i. length cyc + i) [0..<length recs])
        = map (\<lambda>i. RecordTuple c (map (\<lambda>n. cellf n (recs ! i)) names)) [0..<length recs]"
    by (simp only: map_map)
  also have "\<dots> = map (\<lambda>rd. RecordTuple c (map (\<lambda>n. cellf n rd) names))
                     (map ((!) recs) [0..<length recs])"
    unfolding map_map comp_def ..
  also have "\<dots> = map (\<lambda>rd. RecordTuple c (map (\<lambda>n. cellf n rd) names)) recs"
    unfolding map_nth ..
  finally have 2: "map ?rec (map (\<lambda>i. length cyc + i) [0..<length recs])
        = map (\<lambda>rd. RecordTuple c (map (\<lambda>n. cellf n rd) names)) recs" .
  have "read_spec names ?cyc' ?col' = map ?rec [0..<length ?cyc']"
    by (simp add: read_spec_def)
  also have "\<dots> = map ?rec [0..<length cyc] @ map ?rec (map (\<lambda>i. length cyc + i) [0..<length recs])"
    unfolding split map_append ..
  finally show ?thesis unfolding 1 2 .
qed

text \<open>
  Claim C5 says that records appended to a sporadic group are read back, for every
  sporadic group. Three kinds of group are left out by the read. It counts the cycles of
  the run on trajectory 0, also for a single run: in a run without trajectories the two
  records are appended and reading them back raises \<^verbatim>\<open>KeyError\<close>. It returns no records
  for a group whose manifest names no field: two records (without fields) are appended
  for cycle 3, and none is read back. And it makes the records as named tuples: with the
  field name \<^verbatim>\<open>target-idxs\<close> a record is appended and reading it back raises
  \<^verbatim>\<open>ValueError\<close>.
\<close>

theorem extend_cycle_read_back_counterexample:
  "(\<exists>a'. extend_cycle_run_group_records no_traj_archive 0 RESAMPLING 4 new_resampling_records
            = Inr a'
        \<and> run_records a' 0 RESAMPLING = Inl KeyError)
   \<and> (\<exists>a'. extend_cycle_run_group_records no_fields_archive 0 RESAMPLING 3 [[], []] = Inr a'
        \<and> run_records a' 0 RESAMPLING = Inr [])
   \<and> (\<exists>a'. extend_cycle_run_group_records bad_names_archive 0 RESAMPLING 3
              [[(''target-idxs'', NDArray [1] [7])]] = Inr a'
        \<and> run_records a' 0 RESAMPLING = Inl ValueError)"
proof -
  have 1: "(case extend_cycle_run_group_records no_traj_archive 0 RESAMPLING 4
                   new_resampling_records of
              Inl e \<Rightarrow> None | Inr a' \<Rightarrow> Some (run_records a' 0 RESAMPLING))
           = Some (Inl KeyError)"
    by code_simp
  have 2: "(case extend_cycle_run_group_records no_fields_archive 0 RESAMPLING 3 [[], []] of
              Inl e \<Rightarrow> None | Inr a' \<Rightarrow> Some (run_records a' 0 RESAMPLING))
           = Some (Inr [])"
    by code_simp
  have 3: "(case extend_cycle_run_group_records bad_names_archive 0 RESAMPLING 3
                   [[(''target-idxs'', NDArray [1] [7])]] of
              Inl e \<Rightarrow> None | Inr a' \<Rightarrow> Some (run_records a' 0 RESAMPLING))
           = Some (Inl ValueError)"
    by code_simp
  from 1 2 3 show ?thesis by (auto split: sum.splits)
qed

text \<open>
  Claim C5, amended. Take a run whose trajectory 0 has its positions, with a sporadic
  record group whose manifest names at least one field, names that \<^verbatim>\<open>namedtuple\<close>
  accepts beside \<^verbatim>\<open>cycle_idx\<close>; the group well formed for the manifest (a cycle index
  per stored record, and for every field of the manifest a dataset of rank at most two
  with as many rows); and record dictionaries \<open>r1, ..., rk\<close> (none, one or many), each
  with a value for every field of the manifest that its dataset accepts. Appending them
  for cycle \<open>c\<close> succeeds, and reading the records of the run back then yields the
  records that were there before, followed by the \<open>k\<close> submitted records, each tagged
  with cycle index \<open>c\<close>, in the order submitted. The group stays well formed and accepts
  the same record dictionaries, so any number of calls can follow, for the same cycle or
  another.
\<close>

theorem extend_cycle_sporadic_records_read_back:
  assumes r: "r < length (runs a)" and grp: "rec_grps (runs a ! r) key = Some g"
    and spor: "is_sporadic_records key"
    and man: "record_fields_grp (settings a) key = Some names"
    and ne: "names \<noteq> []" and dist: "namedtuple_accepts (key @ ''_Record'') (CYCLE_IDX # names)"
    and wf: "sporadic_grp_ok g names cyc"
    and cycles: "num_run_cycles a r = Inr m"
    and recs: "list_all (record_ok g names) recs"
  shows "\<exists>old a' g'.
           run_records a r key = Inr old \<and> length old = length cyc
         \<and> extend_cycle_run_group_records a r key c recs = Inr a'
         \<and> run_records a' r key = Inr (old @ map (submitted_record g names c) recs)
         \<and> rec_grps (runs a' ! r) key = Some g'
         \<and> sporadic_grp_ok g' names (cyc @ replicate (length recs) c)
         \<and> (\<forall>rd. record_ok g' names rd = record_ok g names rd)"
proof -
  let ?colf = "\<lambda>n. dset_column (the (fields_ds g n))"
  let ?cyc' = "cyc @ replicate (length recs) c"
  let ?g' = "fold (\<lambda>rd. fold grp_put_field rd) recs (g\<lparr>cycle_idxs_ds := Some ?cyc'\<rparr>)"
  let ?a' = "set_records_grp a r key ?g'"
  let ?cellf = "\<lambda>n rd. table_cell (the (fields_ds g n)) (the (map_of rd n))"
  from wf have cyc: "cycle_idxs_ds g = Some cyc" by (simp add: sporadic_grp_ok_def)
  have col: "\<exists>d. fields_ds g n = Some d \<and> tabular d \<and> dset_column d = ?colf n
                \<and> length (?colf n) = length cyc" if "n \<in> set names" for n
    using wf that by (auto simp: sporadic_grp_ok_def list_all_iff split: option.splits)
  have old: "run_records a r key = Inr (read_spec names cyc ?colf)"
    by (rule run_records_read [OF r grp spor cyc man ne dist col cycles])
  have acc: "list_all (record_accepted g) recs"
    using recs by (auto simp: list_all_iff intro: record_ok_accepted)
  from extend_cycle_sporadic [OF r grp spor cyc acc, of c]
  have ext: "extend_cycle_run_group_records a r key c recs = Inr ?a'"
    and kinds: "same_kinds g ?g'" by blast+
  have r': "r < length (runs ?a')" using r by simp
  have grp': "rec_grps (runs ?a' ! r) key = Some ?g'"
    using r by (simp add: set_records_grp_def)
  have man': "record_fields_grp (settings ?a') key = Some names" using man by simp
  have cyc': "cycle_idxs_ds ?g' = Some ?cyc'" by simp
  have cycles': "num_run_cycles ?a' r = Inr m" using cycles by simp
  have col': "\<exists>d. fields_ds ?g' n = Some d \<and> tabular d
                \<and> dset_column d = ?colf n @ map (\<lambda>rd. ?cellf n rd) recs
                \<and> length (?colf n @ map (\<lambda>rd. ?cellf n rd) recs) = length ?cyc'"
    if n: "n \<in> set names" for n
  proof -
    from col [OF n] obtain d where d: "fields_ds g n = Some d" "tabular d"
      "length (dset_column d) = length cyc" by auto
    have d1: "fields_ds (g\<lparr>cycle_idxs_ds := Some ?cyc'\<rparr>) n = Some d" using d(1) by simp
    have each: "distinct (map fst rd) \<and> (\<exists>x. map_of rd n = Some x \<and> field_accepts d x \<and> nd_ok x)"
      if "rd \<in> set recs" for rd
    proof -
      from recs that have ok: "record_ok g names rd" by (simp add: list_all_iff)
      then have dist: "distinct (map fst rd)" and "n \<in> fst ` set rd"
        using n by (auto simp: record_ok_def)
      then obtain x where x: "map_of rd n = Some x"
        by (metis map_of_eq_None_iff not_Some_eq)
      then have "(n, x) \<in> set rd" by (rule map_of_SomeD)
      with ok d(1) have "nd_ok x" "field_accepts d x"
        by (auto simp: record_ok_def list_all_iff split: option.splits)
      with dist x show ?thesis by blast
    qed
    from put_records_column [OF d1 d(2) each] d(1,3) show ?thesis by auto
  qed
  have new: "run_records ?a' r key
             = Inr (read_spec names ?cyc' (\<lambda>n. ?colf n @ map (\<lambda>rd. ?cellf n rd) recs))"
    by (rule run_records_read [OF r' grp' spor cyc' man' ne dist col' cycles'])
  have app: "read_spec names ?cyc' (\<lambda>n. ?colf n @ map (\<lambda>rd. ?cellf n rd) recs)
             = read_spec names cyc ?colf @ map (submitted_record g names c) recs"
    unfolding submitted_record_def
    by (rule read_spec_append) (use col in auto)
  have wf1: "case fields_ds ?g' n of None \<Rightarrow> False
             | Some d \<Rightarrow> tabular d \<and> length (dset_rows d) = length ?cyc'"
    if n: "n \<in> set names" for n
  proof -
    from col' [OF n] obtain d where d: "fields_ds ?g' n = Some d" "tabular d"
      "dset_column d = ?colf n @ map (\<lambda>rd. ?cellf n rd) recs"
      "length (?colf n @ map (\<lambda>rd. ?cellf n rd) recs) = length ?cyc'" by blast
    from d(3,4) have "length (dset_column d) = length ?cyc'" by simp
    then have "length (dset_rows d) = length ?cyc'" by simp
    with d(1,2) show ?thesis by simp
  qed
  have wf': "sporadic_grp_ok ?g' names ?cyc'"
    unfolding sporadic_grp_ok_def list_all_iff using cyc' wf1 by blast
  have len: "length (read_spec names cyc ?colf) = length cyc" by (simp add: read_spec_def)
  have new': "run_records ?a' r key
              = Inr (read_spec names cyc ?colf @ map (submitted_record g names c) recs)"
    using new app by simp
  have same: "\<forall>rd. record_ok ?g' names rd = record_ok g names rd"
    using record_ok_same_kinds [OF kinds] by blast
  from old len ext new' grp' wf' same show ?thesis by blast
qed

lemmas records_archive_defs =
  records_archive_def base_settings_def resampling_grp0_def resampling_grp1_def
  progress_grp0_def progress_grp1_def RESAMPLING_def PROGRESS_def POSITIONS_def

lemma resampling_record_names:
  "namedtuple_accepts ''resampling_Record'' [''cycle_idx'', ''decision_id'', ''target_idxs'']"
  by (simp add: namedtuple_accepts_def is_identifier_def kwlist_def)

lemma resampling_record_type:
  "namedtuple_accepts (RESAMPLING @ ''_Record'') (CYCLE_IDX # [''decision_id'', ''target_idxs''])"
  using resampling_record_names by (simp add: RESAMPLING_def CYCLE_IDX_def)

lemma columns_of_fold:
  "columns_of names (fold (\<lambda>n acc. AList.update n (c n) acc) names []) c"
proof -
  let ?cols = "fold (\<lambda>n acc. AList.update n (c n) acc) names []"
  have mo: "map_of ?cols n = (if n \<in> set names then Some (c n) else None)" for n
    by (simp add: fold_update_map_of)
  have "distinct (map fst ?cols)" by (rule fold_update_distinct) simp
  moreover have "fst ` set ?cols = set names"
  proof -
    have "dom (map_of ?cols) = set names" by (auto simp: mo dom_def)
    then show ?thesis by (simp add: dom_map_of_conv_image_fst)
  qed
  ultimately show ?thesis by (simp add: columns_of_def mo list_all_iff)
qed

lemma make_records_ok:
  assumes man: "record_fields_grp (settings a) key = Some names"
    and dist: "namedtuple_accepts (key @ ''_Record'') (CYCLE_IDX # names)"
    and cols: "columns_of names cols c"
    and len: "\<And>n. n \<in> set names \<Longrightarrow> length cyc \<le> length (c n)"
  shows "make_records a key cyc (Some cols) = Inr (read_spec names cyc c)"
proof -
  from cols have dc: "distinct (map fst cols)" and keys: "fst ` set cols = set names"
    and mo: "\<And>n. n \<in> set names \<Longrightarrow> map_of cols n = Some (c n)"
    by (auto simp: columns_of_def list_all_iff)
  have rec: "make_record names cyc cols i = Inr (RecordTuple (cyc ! i) (map (\<lambda>n. c n ! i) names))"
    if "i < length cyc" for i
  proof -
    have "make_record names cyc cols i
          = Inr (RecordTuple (cyc ! i) (map (\<lambda>n. the (map_of cols n) ! i) names))"
    proof (rule make_record_ok [OF dc])
      fix n col assume in_cols: "(n, col) \<in> set cols"
      then have "n \<in> set names" using keys by force
      moreover from in_cols have "map_of cols n = Some col" using dc by simp
      ultimately have "col = c n" using mo by simp
      with len [OF \<open>n \<in> set names\<close>] that show "i < length col" by simp
    next
      fix n assume "n \<in> set names"
      then show "\<exists>col. map_of cols n = Some col" by (simp add: mo)
    qed
    moreover have "map (\<lambda>n. the (map_of cols n) ! i) names = map (\<lambda>n. c n ! i) names"
      by (rule map_cong [OF refl]) (simp add: mo)
    ultimately show ?thesis by simp
  qed
  have "emap (make_record names cyc cols) [0..<length cyc]
        = Inr (map (\<lambda>i. RecordTuple (cyc ! i) (map (\<lambda>n. c n ! i) names)) [0..<length cyc])"
    by (rule emap_total) (simp add: rec)
  then show ?thesis
    using man dist by (simp add: make_records_def run_record_namedtuple_def record_fields_def read_spec_def)
qed

lemma fold_extend_items_map_of:
  "distinct (map fst xs) \<Longrightarrow>
   map_of (fold (\<lambda>(k, v) acc. AList.update k (the (map_of acc k) @ v) acc) xs acc) k
     = (case map_of xs k of Some v \<Rightarrow> Some (the (map_of acc k) @ v) | None \<Rightarrow> map_of acc k)"
proof (induction xs arbitrary: acc)
  case Nil
  then show ?case by simp
next
  case (Cons kv xs)
  obtain k0 v0 where kv: "kv = (k0, v0)" by (cases kv)
  from Cons.prems kv have d: "distinct (map fst xs)" and n: "k0 \<notin> fst ` set xs" by auto
  from n have none: "map_of xs k0 = None" by (simp add: map_of_eq_None_iff)
  show ?case using Cons.IH [OF d] kv none
    by (auto simp: update_conv' split: option.splits)
qed

lemma fold_extend_items_keys:
  "fst ` set xs \<subseteq> fst ` set acc \<Longrightarrow>
   fst ` set (fold (\<lambda>(k, v) acc. AList.update k (the (map_of acc k) @ v) acc) xs acc)
     = fst ` set acc"
proof (induction xs arbitrary: acc)
  case Nil
  then show ?case by simp
next
  case (Cons kv xs)
  obtain k0 v0 where kv: "kv = (k0, v0)" by (cases kv)
  let ?acc = "AList.update k0 (the (map_of acc k0) @ v0) acc"
  from Cons.prems kv have k0: "k0 \<in> fst ` set acc" and sub: "fst ` set xs \<subseteq> fst ` set acc"
    by auto
  have keys: "fst ` set ?acc = fst ` set acc" using k0 by (auto simp: dom_update)
  have "fst ` set (fold (\<lambda>(k, v) acc. AList.update k (the (map_of acc k) @ v) acc) xs ?acc)
        = fst ` set ?acc"
    by (rule Cons.IH) (simp only: keys sub)
  then show ?case by (simp only: kv fold_simps prod.case keys)
qed

lemma fold_extend_items_distinct:
  "distinct (map fst acc) \<Longrightarrow>
   distinct (map fst (fold (\<lambda>(k, v) acc. AList.update k (the (map_of acc k) @ v) acc) xs acc))"
  by (induction xs arbitrary: acc) (auto simp: distinct_update split: prod.splits)


lemma extend_columns_ok:
  fixes cols :: "(string \<times> 's cell list) list" and cf :: "string \<Rightarrow> 's cell list"
  assumes cols: "columns_of names cols c"
  shows "\<exists>cols'. extend_columns cols (fold (\<lambda>n acc. AList.update n (cf n) acc) names [])
                    = Inr cols'
               \<and> columns_of names cols' (\<lambda>n. c n @ cf n)"
proof -
  define items where "items = fold (\<lambda>n acc. AList.update n (cf n) acc) names []"
  define g :: "string \<times> 's cell list \<Rightarrow> (string \<times> 's cell list) list \<Rightarrow> (string \<times> 's cell list) list"
    where "g = (\<lambda>(k, v) acc. AList.update k (the (map_of acc k) @ v) acc)"
  have it: "columns_of names items cf" unfolding items_def by (rule columns_of_fold)
  from cols have dc: "distinct (map fst cols)" and keys: "fst ` set cols = set names"
    and mo: "\<And>n. n \<in> set names \<Longrightarrow> map_of cols n = Some (c n)"
    by (auto simp: columns_of_def list_all_iff)
  from it have di: "distinct (map fst items)" and ikeys: "fst ` set items = set names"
    and imo: "\<And>n. n \<in> set names \<Longrightarrow> map_of items n = Some (cf n)"
    by (auto simp: columns_of_def list_all_iff)
  have run: "efold (\<lambda>(field_name, field_data) acc.
                ebind (dict_get acc field_name) (\<lambda>column.
                  Inr (AList.update field_name (column @ field_data) acc))) items cols
             = Inr (fold g items cols) \<and> fst ` set (fold g items cols) = set names"
  proof (rule efold_invariant [where I = "\<lambda>acc. fst ` set acc = set names"])
    show "fst ` set cols = set names" by (rule keys)
  next
    fix x :: "string \<times> 's cell list" and acc :: "(string \<times> 's cell list) list"
    assume x: "x \<in> set items" and I: "fst ` set acc = set names"
    obtain k v where kv: "x = (k, v)" by (cases x)
    from x kv ikeys have k: "k \<in> set names" by force
    with I have "k \<in> fst ` set acc" by simp
    then obtain col where col: "map_of acc k = Some col"
      by (metis domD dom_map_of_conv_image_fst)
    have "fst ` set (AList.update k (col @ v) acc) = set names"
      using I k by (auto simp: dom_update)
    then show "(case x of (field_name, field_data) \<Rightarrow> \<lambda>acc.
                  ebind (dict_get acc field_name) (\<lambda>column.
                    Inr (AList.update field_name (column @ field_data) acc))) acc = Inr (g x acc)
               \<and> fst ` set (g x acc) = set names"
      by (simp add: kv g_def dict_get_def col)
  qed
  have d': "distinct (map fst (fold g items cols))"
    unfolding g_def by (rule fold_extend_items_distinct [OF dc])
  have mo': "map_of (fold g items cols) n = Some (c n @ cf n)" if "n \<in> set names" for n
    unfolding g_def using fold_extend_items_map_of [OF di, of cols n] imo [OF that] mo [OF that]
    by simp
  have "columns_of names (fold g items cols) (\<lambda>n. c n @ cf n)"
    using d' run mo' by (simp add: columns_of_def list_all_iff)
  with run show ?thesis by (simp add: extend_columns_def items_def)
qed

lemma sporadic_step_ok:
  assumes r: "r < length (runs a)" and grp: "rec_grps (runs a ! r) key = Some g"
    and man: "record_fields_grp (settings a) key = Some names"
    and wf: "sporadic_grp_ok g names cyc"
    and cycles: "num_run_cycles a r = Inr m"
  shows "sporadic_step a key r (None, cycs, p)
           = Inr (Some (fold (\<lambda>n acc. AList.update n (dset_column (the (fields_ds g n))) acc)
                          names []),
                  cycs @ map (\<lambda>c. c + p) cyc, p + m)"
    and "columns_of names cols c \<Longrightarrow>
         \<exists>cols'. sporadic_step a key r (Some cols, cycs, p)
                   = Inr (Some cols', cycs @ map (\<lambda>c. c + p) cyc, p + m)
               \<and> columns_of names cols' (\<lambda>n. c n @ dset_column (the (fields_ds g n)))"
proof -
  let ?colf = "\<lambda>n. dset_column (the (fields_ds g n))"
  let ?new = "fold (\<lambda>n acc. AList.update n (?colf n) acc) names []"
  from wf have cyc: "cycle_idxs_ds g = Some cyc" by (simp add: sporadic_grp_ok_def)
  have col: "\<exists>d. fields_ds g n = Some d \<and> tabular d \<and> dset_column d = ?colf n"
    if "n \<in> set names" for n
    using wf that by (auto simp: sporadic_grp_ok_def list_all_iff split: option.splits)
  have conv: "convert_record_fields_to_table_columns a r key = Inr ?new"
    by (rule convert_columns [OF r grp man]) (use col in blast)
  show "sporadic_step a key r (None, cycs, p)
          = Inr (Some ?new, cycs @ map (\<lambda>c. c + p) cyc, p + m)"
    using r grp cyc cycles
    by (simp add: sporadic_step_def conv merge_columns_def records_grp_def)
  assume "columns_of names cols c"
  from extend_columns_ok [OF this, where cf = ?colf] obtain cols'
    where ext: "extend_columns cols ?new = Inr cols'"
      and c': "columns_of names cols' (\<lambda>n. c n @ ?colf n)" by blast
  have "sporadic_step a key r (Some cols, cycs, p)
          = Inr (Some cols', cycs @ map (\<lambda>c. c + p) cyc, p + m)"
    using r grp cyc cycles
    by (simp add: sporadic_step_def conv merge_columns_def records_grp_def ext)
  with c' show "\<exists>cols'. sporadic_step a key r (Some cols, cycs, p)
                   = Inr (Some cols', cycs @ map (\<lambda>c. c + p) cyc, p + m)
               \<and> columns_of names cols' (\<lambda>n. c n @ ?colf n)" by blast
qed

lemma sporadic_loop:
  assumes man: "record_fields_grp (settings a) key = Some names"
    and runs: "\<And>r. r \<in> set rs \<Longrightarrow>
                 r < length (runs a) \<and> rec_grps (runs a ! r) key = Some (G r)
                 \<and> sporadic_grp_ok (G r) names (cyc r) \<and> num_run_cycles a r = Inr (m r)"
    and cols: "columns_of names cols c"
  shows "\<exists>cols'. efold (sporadic_step a key) rs (Some cols, cycs, p)
                   = Inr (Some cols', cycs @ offset_cycles p (map (\<lambda>r. (cyc r, m r)) rs),
                          p + sum_list (map m rs))
               \<and> columns_of names cols'
                    (\<lambda>n. c n @ concat (map (\<lambda>r. dset_column (the (fields_ds (G r) n))) rs))"
  using runs cols
proof (induction rs arbitrary: cols c cycs p)
  case Nil
  then show ?case by simp
next
  case (Cons r rs)
  let ?colf = "\<lambda>r n. dset_column (the (fields_ds (G r) n))"
  from Cons.prems(1) [of r] have r: "r < length (runs a)"
    and grp: "rec_grps (runs a ! r) key = Some (G r)"
    and wf: "sporadic_grp_ok (G r) names (cyc r)"
    and cycles: "num_run_cycles a r = Inr (m r)" by simp_all
  from sporadic_step_ok(2) [OF r grp man wf cycles Cons.prems(2), where cycs = cycs and p = p]
  obtain cols1
    where step: "sporadic_step a key r (Some cols, cycs, p)
                   = Inr (Some cols1, cycs @ map (\<lambda>c. c + p) (cyc r), p + m r)"
      and c1: "columns_of names cols1 (\<lambda>n. c n @ ?colf r n)" by blast
  have rest: "\<And>r'. r' \<in> set rs \<Longrightarrow>
                 r' < length (runs a) \<and> rec_grps (runs a ! r') key = Some (G r')
                 \<and> sporadic_grp_ok (G r') names (cyc r') \<and> num_run_cycles a r' = Inr (m r')"
    using Cons.prems(1) by simp
  from Cons.IH [OF rest c1, where cycs = "cycs @ map (\<lambda>c. c + p) (cyc r)" and p = "p + m r"]
  obtain cols'
    where loop: "efold (sporadic_step a key) rs
                   (Some cols1, cycs @ map (\<lambda>c. c + p) (cyc r), p + m r)
                 = Inr (Some cols', (cycs @ map (\<lambda>c. c + p) (cyc r))
                          @ offset_cycles (p + m r) (map (\<lambda>r. (cyc r, m r)) rs),
                        p + m r + sum_list (map m rs))"
      and c': "columns_of names cols'
                 (\<lambda>n. (c n @ ?colf r n) @ concat (map (\<lambda>r. ?colf r n) rs))" by blast
  have "efold (sporadic_step a key) (r # rs) (Some cols, cycs, p)
        = Inr (Some cols', cycs @ offset_cycles p (map (\<lambda>r. (cyc r, m r)) (r # rs)),
               p + sum_list (map m (r # rs)))"
    using step loop by (simp add: add.assoc)
  moreover have "columns_of names cols'
                   (\<lambda>n. c n @ concat (map (\<lambda>r. ?colf r n) (r # rs)))"
    using c' by simp
  ultimately show ?case by blast
qed

lemma length_offset_cycles:
  "length (offset_cycles p xs) = sum_list (map (\<lambda>x. length (fst x)) xs)"
  by (induction p xs rule: offset_cycles.induct) simp_all

text \<open>
  The sporadic half of the contig record read, for any number of runs: the records of
  the runs follow one another in the order of the contig, the cycle index of each record
  moved up by the cycle counts of the runs before its own.
\<close>

lemma run_contig_records_sporadic:
  assumes spor: "is_sporadic_records key"
    and man: "record_fields_grp (settings a) key = Some names"
    and ne: "names \<noteq> []" and dist: "namedtuple_accepts (key @ ''_Record'') (CYCLE_IDX # names)"
    and runs: "\<And>r. r \<in> set rs \<Longrightarrow>
                 r < length (runs a) \<and> rec_grps (runs a ! r) key = Some (G r)
                 \<and> sporadic_grp_ok (G r) names (cyc r) \<and> num_run_cycles a r = Inr (m r)"
  shows "run_contig_records a rs key
         = Inr (read_spec names (offset_cycles 0 (map (\<lambda>r. (cyc r, m r)) rs))
                  (\<lambda>n. concat (map (\<lambda>r. dset_column (the (fields_ds (G r) n))) rs)))"
proof (cases rs)
  case Nil
  then show ?thesis using man ne spor dist
    by (simp add: run_contig_records_def record_fields_def run_records_sporadic_def
        make_records_def run_record_namedtuple_def read_spec_def)
next
  case (Cons r rest)
  let ?colf = "\<lambda>r n. dset_column (the (fields_ds (G r) n))"
  let ?new = "fold (\<lambda>n acc. AList.update n (?colf r n) acc) names []"
  let ?cycs = "offset_cycles 0 (map (\<lambda>r. (cyc r, m r)) rs)"
  from runs [of r] Cons have r: "r < length (runs a)"
    and grp: "rec_grps (runs a ! r) key = Some (G r)"
    and wf: "sporadic_grp_ok (G r) names (cyc r)"
    and cycles: "num_run_cycles a r = Inr (m r)" by simp_all
  have step: "sporadic_step a key r (None, [], 0) = Inr (Some ?new, map (\<lambda>c. c + 0) (cyc r), m r)"
    using sporadic_step_ok(1) [OF r grp man wf cycles, where cycs = "[]" and p = 0] by simp
  have c1: "columns_of names ?new (?colf r)" by (rule columns_of_fold)
  have rest: "\<And>r'. r' \<in> set rest \<Longrightarrow>
                 r' < length (runs a) \<and> rec_grps (runs a ! r') key = Some (G r')
                 \<and> sporadic_grp_ok (G r') names (cyc r') \<and> num_run_cycles a r' = Inr (m r')"
    using runs Cons by simp
  from sporadic_loop [OF man rest c1, where cycs = "map (\<lambda>c. c + 0) (cyc r)" and p = "m r"]
  obtain cols'
    where loop: "efold (sporadic_step a key) rest (Some ?new, map (\<lambda>c. c + 0) (cyc r), m r)
                 = Inr (Some cols', map (\<lambda>c. c + 0) (cyc r)
                          @ offset_cycles (m r) (map (\<lambda>r. (cyc r, m r)) rest),
                        m r + sum_list (map m rest))"
      and c': "columns_of names cols'
                 (\<lambda>n. ?colf r n @ concat (map (\<lambda>r. ?colf r n) rest))" by blast
  have ef: "efold (sporadic_step a key) rs (None, [], 0)
            = Inr (Some cols', ?cycs, sum_list (map m rs))"
    using step loop Cons by simp
  have cols: "columns_of names cols' (\<lambda>n. concat (map (\<lambda>r. ?colf r n) rs))"
    using c' Cons by simp
  have len: "length ?cycs \<le> length (concat (map (\<lambda>r. ?colf r n) rs))"
    if n: "n \<in> set names" for n
  proof -
    have "length (?colf r' n) = length (cyc r')" if "r' \<in> set rs" for r'
      using runs [OF that] n
      by (auto simp: sporadic_grp_ok_def list_all_iff split: option.splits)
    then have "map (\<lambda>r. length (?colf r n)) rs = map (\<lambda>r. length (cyc r)) rs"
      by (intro map_cong [OF refl])
    then have "length (concat (map (\<lambda>r. ?colf r n) rs)) = sum_list (map (\<lambda>r. length (cyc r)) rs)"
      by (simp only: length_concat map_map comp_def)
    moreover have "length ?cycs = sum_list (map (\<lambda>r. length (cyc r)) rs)"
      by (simp only: length_offset_cycles map_map comp_def fst_conv)
    ultimately show ?thesis by simp
  qed
  have "make_records a key ?cycs (Some cols')
        = Inr (read_spec names ?cycs (\<lambda>n. concat (map (\<lambda>r. ?colf r n) rs)))"
    by (rule make_records_ok [OF man dist cols len])
  then show ?thesis using man ne spor ef
    by (simp add: run_contig_records_def record_fields_def run_records_sporadic_def)
qed

lemma ebind_raises: "(\<And>x. \<exists>e. f x = Inl e) \<Longrightarrow> \<exists>e. ebind m f = Inl e"
  by (cases m) simp_all

lemma continual_step_raises: "\<exists>e. continual_step a key r st = Inl e"
  unfolding continual_step_def Let_def
  by (intro ebind_raises) simp

text \<open>
  Claim C3 says that the records of a contig are read with the cycle indices of later runs
  offset by the cycles of the runs before them, for sporadic and continual groups. For
  sporadic groups this is so (lemma \<open>run_contig_records_sporadic\<close> above). For a
  continual group nothing is read at all: whenever the manifest of the group names a
  field and there is a run to read, the read raises.
\<close>

theorem run_records_continual_raises:
  assumes "record_fields_grp (settings a) key = Some names" and "names \<noteq> []"
    and "\<not> is_sporadic_records key" and "rs \<noteq> []"
  shows "\<exists>e. run_contig_records a rs key = Inl e"
proof -
  from assms(4) obtain r rest where rs: "rs = r # rest" by (cases rs) auto
  obtain e where "continual_step a key r (None, [], 0) = Inl e"
    using continual_step_raises by blast
  then have "run_records_continual a rs key = Inl e"
    by (simp add: run_records_continual_def rs)
  with assms(1-3) show ?thesis
    by (simp add: run_contig_records_def record_fields_def)
qed

text \<open>
  On the two example runs the continual group \<^verbatim>\<open>progress\<close> cannot be read, for the
  contig or for one run; the sporadic group \<^verbatim>\<open>resampling\<close> is read with the record of
  run 1 (stored cycle 1) at cycle 6, after the five cycles of run 0.
\<close>

theorem run_records_continual_raises_witness:
  "run_contig_records records_archive [0, 1] PROGRESS = Inl TypeError
   \<and> run_contig_records records_archive [0] PROGRESS = Inl TypeError
   \<and> run_contig_records records_archive [0, 1] RESAMPLING
       = Inr [RecordTuple 0 [Scalar 1, Tuple [0]], RecordTuple 3 [Scalar 2, Tuple [1, 2]],
              RecordTuple 6 [Scalar 3, Tuple [4]]]"
proof -
  have m: "record_fields_grp (settings records_archive) PROGRESS = Some [''min_distance'']"
    by (simp add: records_archive_defs)
  have s: "\<not> is_sporadic_records PROGRESS"
    by (simp add: is_sporadic_records_def SPORADIC_RECORDS_def PROGRESS_def RESAMPLER_def
        WARPING_def RESAMPLING_def BC_def)
  from run_records_continual_raises [OF m _ s, of "[0, 1]"]
  obtain e where e: "run_contig_records records_archive [0, 1] PROGRESS = Inl e" by auto
  have 1: "run_contig_records records_archive [0, 1] PROGRESS = Inl TypeError"
    using s
    by (simp add: run_contig_records_def record_fields_def m run_records_continual_def
        continual_step_def convert_record_fields_to_table_columns_def
        convert_record_field_to_table_column_def records_grp_def table_column_def
        merge_columns_def records_archive_defs)
  have 2: "run_contig_records records_archive [0] PROGRESS = Inl TypeError"
    using s
    by (simp add: run_contig_records_def record_fields_def m run_records_continual_def
        continual_step_def convert_record_fields_to_table_columns_def
        convert_record_field_to_table_column_def records_grp_def table_column_def
        merge_columns_def records_archive_defs)
  have 3: "run_contig_records records_archive [0, 1] RESAMPLING
       = Inr [RecordTuple 0 [Scalar 1, Tuple [0]], RecordTuple 3 [Scalar 2, Tuple [1, 2]],
              RecordTuple 6 [Scalar 3, Tuple [4]]]"
    by (simp add: run_contig_records_def record_fields_def run_records_sporadic_def
        sporadic_step_def convert_record_fields_to_table_columns_def
        convert_record_field_to_table_column_def records_grp_def table_column_def
        merge_columns_def extend_columns_def dict_get_def make_records_def make_record_def
        run_record_namedtuple_def resampling_record_names
        num_run_cycles_def num_traj_frames_def h5_traj_def dset_n_rows_def
        is_sporadic_records_def SPORADIC_RECORDS_def RESAMPLER_def WARPING_def BC_def
        CYCLE_IDX_def upt_rec records_archive_defs)
  from e 1 2 3 show ?thesis by simp
qed

theorem extend_cycle_sporadic_records_read_back_witness:
  "\<exists>a'. extend_cycle_run_group_records records_archive 0 RESAMPLING 4 new_resampling_records
           = Inr a'
       \<and> run_records a' 0 RESAMPLING
           = Inr [RecordTuple 0 [Scalar 1, Tuple [0]], RecordTuple 3 [Scalar 2, Tuple [1, 2]],
                  RecordTuple 4 [Scalar 2, Tuple [5, 6]], RecordTuple 4 [Scalar 1, Tuple [7]]]"
proof -
  let ?names = "[''decision_id'', ''target_idxs'']"
  have r: "0 < length (runs records_archive)" by (simp add: records_archive_def)
  have grp: "rec_grps (runs records_archive ! 0) RESAMPLING = Some resampling_grp0"
    by (simp add: records_archive_def RESAMPLING_def PROGRESS_def)
  have spor: "is_sporadic_records RESAMPLING"
    by (simp add: is_sporadic_records_def SPORADIC_RECORDS_def)
  have man: "record_fields_grp (settings records_archive) RESAMPLING = Some ?names"
    by (simp add: records_archive_def RESAMPLING_def PROGRESS_def)
  have ne: "?names \<noteq> []" by simp
  have dist: "namedtuple_accepts (RESAMPLING @ ''_Record'') (CYCLE_IDX # ?names)"
    by (rule resampling_record_type)
  have wf: "sporadic_grp_ok resampling_grp0 ?names [0, 3]"
    by (simp add: sporadic_grp_ok_def resampling_grp0_def tabular_def)
  have cycles: "num_run_cycles records_archive 0 = Inr 5"
    by (simp add: num_run_cycles_def num_traj_frames_def h5_traj_def dset_n_rows_def
        records_archive_def)
  have recs: "list_all (record_ok resampling_grp0 ?names) new_resampling_records"
    by (simp add: new_resampling_records_def record_ok_def resampling_grp0_def nd_ok_def
        field_accepts_def)
  from extend_cycle_sporadic_records_read_back
         [OF r grp spor man ne dist wf cycles recs, of 4]
  obtain old a' where
    old: "run_records records_archive 0 RESAMPLING = Inr old"
    and ext: "extend_cycle_run_group_records records_archive 0 RESAMPLING 4 new_resampling_records
              = Inr a'"
    and new: "run_records a' 0 RESAMPLING
              = Inr (old @ map (submitted_record resampling_grp0 ?names 4) new_resampling_records)"
    by blast
  have "run_records records_archive 0 RESAMPLING
        = Inr [RecordTuple 0 [Scalar 1, Tuple [0]], RecordTuple 3 [Scalar 2, Tuple [1, 2]]]"
    by (simp add: run_records_def run_contig_records_def record_fields_def
        run_records_sporadic_def
        sporadic_step_def convert_record_fields_to_table_columns_def
        convert_record_field_to_table_column_def records_grp_def table_column_def
        merge_columns_def dict_get_def make_records_def make_record_def
        run_record_namedtuple_def resampling_record_names
        num_run_cycles_def num_traj_frames_def h5_traj_def dset_n_rows_def
        is_sporadic_records_def SPORADIC_RECORDS_def RESAMPLER_def WARPING_def BC_def
        CYCLE_IDX_def upt_rec records_archive_defs)
  with old have o: "old = [RecordTuple 0 [Scalar 1, Tuple [0]], RecordTuple 3 [Scalar 2, Tuple [1, 2]]]"
    by simp
  have n: "map (submitted_record resampling_grp0 ?names 4) new_resampling_records
           = [RecordTuple 4 [Scalar 2, Tuple [5, 6]], RecordTuple 4 [Scalar 1, Tuple [7]]]"
    by (simp add: submitted_record_def new_resampling_records_def resampling_grp0_def
        table_cell_def)
  from ext new o n show ?thesis by simp
qed

section \<open>Properties: the masked read of a sparse field\<close>

lemma fold_put_length [simp]:
  "length (fold (\<lambda>(i, r) acc. acc[i := r]) ps arr) = length arr"
  by (induction ps arbitrary: arr) (auto split: prod.splits)

lemma fold_put_other:
  "j \<notin> fst ` set ps \<Longrightarrow> fold (\<lambda>(i, r) acc. acc[i := r]) ps arr ! j = arr ! j"
  by (induction ps arbitrary: arr) (auto split: prod.splits)

lemma fold_put_nth:
  assumes "distinct idxs" and "length rows = length idxs"
    and "\<forall>i\<in>set idxs. i < length arr" and "k < length idxs"
  shows "fold (\<lambda>(i, r) acc. acc[i := r]) (zip idxs rows) arr ! (idxs ! k) = rows ! k"
  using assms
proof (induction idxs arbitrary: rows arr k)
  case Nil
  then show ?case by simp
next
  case (Cons i idxs)
  from Cons.prems(2) obtain r rest where rows: "rows = r # rest" by (cases rows) auto
  show ?case
  proof (cases k)
    case 0
    have "i \<notin> fst ` set (zip idxs rest)"
      using Cons.prems(1) by (auto dest: set_zip_leftD)
    then have "fold (\<lambda>(i, r) acc. acc[i := r]) (zip idxs rest) (arr[i := r]) ! i = arr[i := r] ! i"
      by (rule fold_put_other)
    with 0 rows Cons.prems(3) show ?thesis by simp
  next
    case (Suc k')
    have "fold (\<lambda>(i, r) acc. acc[i := r]) (zip idxs rest) (arr[i := r]) ! (idxs ! k') = rest ! k'"
      by (rule Cons.IH) (use Cons.prems rows Suc in auto)
    with Suc rows show ?thesis by simp
  qed
qed

lemma fold_fill_length [simp]: "length (fold (\<lambda>i acc. acc[i := v]) idxs arr) = length arr"
  by (induction idxs arbitrary: arr) auto

lemma fold_fill_nth:
  "j < length arr \<Longrightarrow>
   fold (\<lambda>i acc. acc[i := v]) idxs arr ! j = (if j \<in> set idxs then v else arr ! j)"
  by (induction idxs arbitrary: arr) (auto simp: nth_list_update)

lemma masked_fill:
  assumes d: "distinct idxs" and l: "length rows = length idxs" and b: "\<forall>i\<in>set idxs. i < n"
  shows "\<exists>filled.
           np_put (replicate n None) idxs (map Some rows) = Inr filled
         \<and> np_put_scalar (replicate n True) idxs False = Inr (map (\<lambda>j. j \<notin> set idxs) [0..<n])
         \<and> length filled = n
         \<and> (\<forall>j<n. j \<notin> set idxs \<longrightarrow> filled ! j = None)
         \<and> (\<forall>k<length idxs. filled ! (idxs ! k) = Some (rows ! k))"
proof -
  define filled where
    "filled = fold (\<lambda>(i, r) acc. acc[i := r]) (zip idxs (map Some rows)) (replicate n None)"
  define mask_arr where "mask_arr = fold (\<lambda>i acc. acc[i := False]) idxs (replicate n True)"
  have nb: "\<not> list_ex (\<lambda>i. length (replicate n x) \<le> i) idxs" for x :: 'b
    using b by (auto simp: list_ex_iff)
  have 1: "np_put (replicate n None) idxs (map Some rows) = Inr filled"
    using l nb [of None] by (simp add: np_put_def filled_def)
  have lm: "length mask_arr = n" by (simp add: mask_arr_def)
  have "mask_arr = map (\<lambda>j. j \<notin> set idxs) [0..<n]"
    by (rule nth_equalityI) (simp_all add: lm, simp add: mask_arr_def fold_fill_nth)
  then have 2: "np_put_scalar (replicate n True) idxs False = Inr (map (\<lambda>j. j \<notin> set idxs) [0..<n])"
    using nb [of True] by (simp add: np_put_scalar_def mask_arr_def)
  have 3: "length filled = n" by (simp add: filled_def)
  have 4: "filled ! j = None" if "j < n" "j \<notin> set idxs" for j
  proof -
    have "j \<notin> fst ` set (zip idxs (map Some rows))"
      using that(2) by (auto dest: set_zip_leftD)
    then have "filled ! j = replicate n None ! j"
      unfolding filled_def by (rule fold_put_other)
    with that(1) show ?thesis by simp
  qed
  have 5: "filled ! (idxs ! k) = Some (rows ! k)" if "k < length idxs" for k
  proof -
    have "filled ! (idxs ! k) = map Some rows ! k"
      unfolding filled_def by (rule fold_put_nth) (use d l b that in auto)
    with that l show ?thesis by simp
  qed
  from 1 2 3 4 5 show ?thesis by blast
qed

lemma filter_upt_nth:
  "map ((!) xs) (filter (\<lambda>k. P (xs ! k)) [0..<length xs]) = filter P xs"
proof -
  have "filter P xs = filter P (map ((!) xs) [0..<length xs])" by (simp add: map_nth)
  also have "\<dots> = map ((!) xs) (filter (P \<circ> (!) xs) [0..<length xs])" by (simp add: filter_map)
  finally show ?thesis by (simp add: comp_def)
qed

lemma sorted_filter_upt: "sorted_wrt (<) (filter P [0..<n])"
  by (rule sorted_wrt_filter) (simp add: sorted_wrt_upt)

lemma strict_sorted_eq:
  assumes "sorted_wrt (<) (xs :: nat list)" and "sorted_wrt (<) ys" and "set xs = set ys"
  shows "xs = ys"
  using assms by (metis sorted_distinct_set_unique strict_sorted_iff)

lemma strict_sorted_distinct: "sorted_wrt (<) (xs :: nat list) \<Longrightarrow> distinct xs"
  by (simp add: strict_sorted_iff)

text \<open>
  The stored positions whose index is requested and the requested positions whose frame
  is stored are equally many; when both lists increase they meet the same frames in the
  same order.
\<close>

lemma common_count:
  assumes S: "distinct (S :: nat list)" and F: "distinct fs"
  shows "length (filter (\<lambda>k. S ! k \<in> set fs) [0..<length S])
         = length (filter (\<lambda>j. fs ! j \<in> set S) [0..<length fs])"
proof -
  let ?ks = "filter (\<lambda>k. S ! k \<in> set fs) [0..<length S]"
  let ?js = "filter (\<lambda>j. fs ! j \<in> set S) [0..<length fs]"
  have "length ?ks = length (map ((!) S) ?ks)" by simp
  also have "\<dots> = length (filter (\<lambda>x. x \<in> set fs) S)"
    by (rule arg_cong [where f = length], rule filter_upt_nth)
  also have "\<dots> = card (set (filter (\<lambda>x. x \<in> set fs) S))"
    by (rule distinct_card [symmetric]) (simp add: S)
  also have "set (filter (\<lambda>x. x \<in> set fs) S) = set (filter (\<lambda>x. x \<in> set S) fs)" by auto
  also have "card (set (filter (\<lambda>x. x \<in> set S) fs)) = length (filter (\<lambda>x. x \<in> set S) fs)"
    by (rule distinct_card) (simp add: F)
  also have "\<dots> = length (map ((!) fs) ?js)"
    by (rule arg_cong [where f = length], rule filter_upt_nth [symmetric])
  finally show ?thesis by simp
qed

lemma common_aligned:
  assumes S: "sorted_wrt (<) (S :: nat list)" and F: "sorted_wrt (<) fs"
    and t: "t < length (filter (\<lambda>j. fs ! j \<in> set S) [0..<length fs])"
  shows "S ! (filter (\<lambda>k. S ! k \<in> set fs) [0..<length S] ! t)
         = fs ! (filter (\<lambda>j. fs ! j \<in> set S) [0..<length fs] ! t)"
proof -
  let ?ks = "filter (\<lambda>k. S ! k \<in> set fs) [0..<length S]"
  let ?js = "filter (\<lambda>j. fs ! j \<in> set S) [0..<length fs]"
  have a: "map ((!) S) ?ks = filter (\<lambda>x. x \<in> set fs) S" by (rule filter_upt_nth)
  have b: "map ((!) fs) ?js = filter (\<lambda>x. x \<in> set S) fs" by (rule filter_upt_nth)
  have "filter (\<lambda>x. x \<in> set fs) S = filter (\<lambda>x. x \<in> set S) fs"
    by (rule strict_sorted_eq) (use S F in \<open>auto intro: sorted_wrt_filter\<close>)
  with a b have eq: "map ((!) S) ?ks = map ((!) fs) ?js" by simp
  then have "length (map ((!) S) ?ks) = length (map ((!) fs) ?js)" by simp
  then have len: "length ?ks = length ?js" by simp
  from eq have "map ((!) S) ?ks ! t = map ((!) fs) ?js ! t" by simp
  with t len show ?thesis by simp
qed

text \<open>
  The read without a selection: the slot of every frame of the trajectory holds the
  stored row of that frame, and is masked exactly when the frame has none.
\<close>

lemma sparse_read_all:
  assumes traj: "h5_traj a r t = Inr tg" and fld: "tg p = Some (SparseGrp D S)"
    and pos: "tg POSITIONS = Some (Dataset P)"
    and flag: "p \<in> set (sparse_fields_ds (settings a))"
    and S: "sorted_wrt (<) S" and inr: "list_all (\<lambda>i. i < length P) S" and len: "length D = length S"
  shows "get_traj_field a r t p None True
         = Inr (Masked (map (map_of (zip S D)) [0..<length P])
                       (map (\<lambda>i. i \<notin> set S) [0..<length P]))"
proof -
  have dS: "distinct S" by (rule strict_sorted_distinct [OF S])
  from masked_fill [OF dS len, of "length P"] inr
  obtain filled where
    1: "np_put (replicate (length P) None) S (map Some D) = Inr filled"
    and 2: "np_put_scalar (replicate (length P) True) S False
            = Inr (map (\<lambda>j. j \<notin> set S) [0..<length P])"
    and 3: "length filled = length P"
    and 4: "\<forall>j<length P. j \<notin> set S \<longrightarrow> filled ! j = None"
    and 5: "\<forall>k<length S. filled ! (S ! k) = Some (D ! k)"
    by (auto simp: list_all_iff)
  have "filled = map (map_of (zip S D)) [0..<length P]"
  proof (rule nth_equalityI)
    show "length filled = length (map (map_of (zip S D)) [0..<length P])" using 3 by simp
  next
    fix j assume "j < length filled"
    with 3 have j: "j < length P" by simp
    show "filled ! j = map (map_of (zip S D)) [0..<length P] ! j"
    proof (cases "j \<in> set S")
      case True
      then obtain k where k: "k < length S" "S ! k = j" by (auto simp: in_set_conv_nth)
      have "map_of (zip S D) (S ! k) = Some (D ! k)"
        by (rule map_of_zip_nth) (use len dS k in auto)
      with 5 k j show ?thesis by auto
    next
      case False
      then have "map_of (zip S D) j = None" using len by (simp add: map_of_zip_is_None)
      with 4 j False show ?thesis by simp
    qed
  qed
  with 1 2 have "get_sparse_traj_field a r t p None True
        = Inr (Masked (map (map_of (zip S D)) [0..<length P])
                      (map (\<lambda>i. i \<notin> set S) [0..<length P]))"
    using traj fld pos by (simp add: get_sparse_traj_field_def dset_n_rows_def masked_array_def)
  then show ?thesis using traj fld flag by (simp add: get_traj_field_def)
qed

text \<open>
  The read at a selection, for frames requested in any order (each once): the mask is
  right; the present slots, from left to right, hold the stored rows whose index is
  requested, in the order in which they are stored.
\<close>

lemma sparse_read_frames_any:
  assumes traj: "h5_traj a r t = Inr tg" and fld: "tg p = Some (SparseGrp D S)"
    and pos: "tg POSITIONS = Some (Dataset P)"
    and flag: "p \<in> set (sparse_fields_ds (settings a))"
    and S: "sorted_wrt (<) S" and len: "length D = length S"
    and F: "distinct fs"
  shows "\<exists>data. get_traj_field a r t p (Some fs) True
                  = Inr (Masked data (map (\<lambda>i. i \<notin> set S) fs))
           \<and> length data = length fs
           \<and> (\<forall>j<length fs. fs ! j \<notin> set S \<longrightarrow> data ! j = None)
           \<and> map ((!) data) (filter (\<lambda>j. fs ! j \<in> set S) [0..<length fs])
               = map (\<lambda>k. Some (D ! k)) (filter (\<lambda>k. S ! k \<in> set fs) [0..<length S])"
proof -
  define ks where "ks = filter (\<lambda>k. S ! k \<in> set fs) [0..<length S]"
  define js where "js = filter (\<lambda>j. fs ! j \<in> set S) [0..<length fs]"
  have dS: "distinct S" by (rule strict_sorted_distinct [OF S])
  have lk: "length ks = length js"
    unfolding ks_def js_def by (rule common_count [OF dS F])
  have ksb: "\<forall>k\<in>set ks. k < length S" by (auto simp: ks_def)
  have sel: "h5_select D ks = Inr (map ((!) D) ks)"
    using ksb len by (simp add: h5_select_def ks_def sorted_filter_upt list_all_iff)
  have jd: "distinct js" by (simp add: js_def)
  have jb: "\<forall>j\<in>set js. j < length fs" by (auto simp: js_def)
  have jl: "length (map ((!) D) ks) = length js" using lk by simp
  from masked_fill [OF jd jl jb]
  obtain data where
    1: "np_put (replicate (length fs) None) js (map Some (map ((!) D) ks)) = Inr data"
    and 2: "np_put_scalar (replicate (length fs) True) js False
            = Inr (map (\<lambda>j. j \<notin> set js) [0..<length fs])"
    and 3: "length data = length fs"
    and 4: "\<forall>j<length fs. j \<notin> set js \<longrightarrow> data ! j = None"
    and 5: "\<forall>t<length js. data ! (js ! t) = Some (map ((!) D) ks ! t)"
    by blast
  have mask: "map (\<lambda>j. j \<notin> set js) [0..<length fs] = map (\<lambda>i. i \<notin> set S) fs"
    by (rule nth_equalityI) (simp_all add: js_def)
  have "get_sparse_traj_field a r t p (Some fs) True
        = Inr (Masked data (map (\<lambda>i. i \<notin> set S) fs))"
    using traj fld pos sel 1 2 mask
    by (simp add: get_sparse_traj_field_def dset_n_rows_def masked_array_def
        ks_def [symmetric] js_def [symmetric])
  then have g: "get_traj_field a r t p (Some fs) True
        = Inr (Masked data (map (\<lambda>i. i \<notin> set S) fs))"
    using traj fld flag by (simp add: get_traj_field_def)
  have absent: "\<forall>j<length fs. fs ! j \<notin> set S \<longrightarrow> data ! j = None"
    using 4 by (simp add: js_def)
  have "map ((!) data) js = map (\<lambda>k. Some (D ! k)) ks"
  proof (rule nth_equalityI)
    show "length (map ((!) data) js) = length (map (\<lambda>k. Some (D ! k)) ks)" using lk by simp
  next
    fix t assume "t < length (map ((!) data) js)"
    then have t: "t < length js" by simp
    with 5 lk show "map ((!) data) js ! t = map (\<lambda>k. Some (D ! k)) ks ! t" by simp
  qed
  with g 3 absent show ?thesis unfolding ks_def js_def by blast
qed

text \<open>
  For frames requested in increasing order the two orders agree, and the slot of every
  requested frame holds the stored row of that frame.
\<close>

lemma sparse_read_frames:
  assumes traj: "h5_traj a r t = Inr tg" and fld: "tg p = Some (SparseGrp D S)"
    and pos: "tg POSITIONS = Some (Dataset P)"
    and flag: "p \<in> set (sparse_fields_ds (settings a))"
    and S: "sorted_wrt (<) S" and len: "length D = length S"
    and F: "sorted_wrt (<) fs"
  shows "get_traj_field a r t p (Some fs) True
         = Inr (Masked (map (map_of (zip S D)) fs) (map (\<lambda>i. i \<notin> set S) fs))"
proof -
  define ks where "ks = filter (\<lambda>k. S ! k \<in> set fs) [0..<length S]"
  define js where "js = filter (\<lambda>j. fs ! j \<in> set S) [0..<length fs]"
  have dS: "distinct S" by (rule strict_sorted_distinct [OF S])
  have dF: "distinct fs" by (rule strict_sorted_distinct [OF F])
  from sparse_read_frames_any [OF traj fld pos flag S len dF]
  obtain data where
    g: "get_traj_field a r t p (Some fs) True = Inr (Masked data (map (\<lambda>i. i \<notin> set S) fs))"
    and l: "length data = length fs"
    and absent: "\<forall>j<length fs. fs ! j \<notin> set S \<longrightarrow> data ! j = None"
    and present: "map ((!) data) js = map (\<lambda>k. Some (D ! k)) ks"
    unfolding ks_def js_def by blast
  have lk: "length ks = length js"
    unfolding ks_def js_def by (rule common_count [OF dS dF])
  have "data = map (map_of (zip S D)) fs"
  proof (rule nth_equalityI)
    show "length data = length (map (map_of (zip S D)) fs)" using l by simp
  next
    fix j assume "j < length data"
    with l have j: "j < length fs" by simp
    show "data ! j = map (map_of (zip S D)) fs ! j"
    proof (cases "fs ! j \<in> set S")
      case True
      with j have "j \<in> set js" by (simp add: js_def)
      then obtain t where t: "t < length js" "js ! t = j" by (auto simp: in_set_conv_nth)
      from t(1) lk have tk: "t < length ks" by simp
      then have "ks ! t \<in> set ks" by simp
      then have kb: "ks ! t < length S" by (auto simp: ks_def)
      have al: "S ! (ks ! t) = fs ! (js ! t)"
        unfolding ks_def js_def
        by (rule common_aligned [OF S F]) (use t(1) in \<open>simp add: js_def\<close>)
      from present have "map ((!) data) js ! t = map (\<lambda>k. Some (D ! k)) ks ! t" by simp
      with t tk have d: "data ! j = Some (D ! (ks ! t))" by simp
      have "map_of (zip S D) (S ! (ks ! t)) = Some (D ! (ks ! t))"
        by (rule map_of_zip_nth) (use len dS kb in auto)
      with al t(2) d j show ?thesis by simp
    next
      case False
      then have "map_of (zip S D) (fs ! j) = None" using len by (simp add: map_of_zip_is_None)
      with absent j False show ?thesis by simp
    qed
  qed
  with g show ?thesis by simp
qed

text \<open>
  Rows written at the sparse indices 2, 5 and 9 of a trajectory of ten frames are read
  back, without a selection, at the slots 2, 5 and 9 of ten, the other slots masked.
\<close>

lemma sparse_write_read:
  assumes traj: "h5_traj a r t = Inr tg" and free: "tg q = None"
    and pos: "tg POSITIONS = Some (Dataset P)" and ten: "length P = 10"
    and flag: "q \<in> set (sparse_fields_ds (settings a))"
  shows "\<exists>a1. add_traj_field_data a r t q [x, y, z] (Some [2, 5, 9]) = Inr a1
           \<and> get_traj_field a1 r t q None True
               = Inr (Masked [None, None, Some x, None, None, Some y, None, None, None, Some z]
                             [True, True, False, True, True, False, True, True, True, False])"
proof -
  define tg1 where "tg1 = tg(q \<mapsto> SparseGrp [x, y, z] [2, 5, 9])"
  define a1 where "a1 = a\<lparr>runs := (runs a)[r :=
      (runs a ! r)\<lparr>trajectories := (trajectories (runs a ! r))[t := tg1]\<rparr>]\<rparr>"
  from traj have rt: "r < length (runs a)" "t < length (trajectories (runs a ! r))"
    by (auto simp: h5_traj_def split: if_splits)
  have w: "add_traj_field_data a r t q [x, y, z] (Some [2, 5, 9]) = Inr a1"
    using traj free by (simp add: add_traj_field_data_def a1_def tg1_def Let_def)
  have traj1: "h5_traj a1 r t = Inr tg1"
    using rt by (simp add: h5_traj_def a1_def)
  from free pos have qp: "q \<noteq> POSITIONS" by auto
  have pos1: "tg1 POSITIONS = Some (Dataset P)" using pos qp by (simp add: tg1_def)
  have fld1: "tg1 q = Some (SparseGrp [x, y, z] [2, 5, 9])" by (simp add: tg1_def)
  have flag1: "q \<in> set (sparse_fields_ds (settings a1))" using flag by (simp add: a1_def)
  obtain p0 p1 p2 p3 p4 p5 p6 p7 p8 p9 where P: "P = [p0, p1, p2, p3, p4, p5, p6, p7, p8, p9]"
    using ten by (auto simp: length_Suc_conv numeral_eq_Suc)
  have "get_sparse_traj_field a1 r t q None True
        = Inr (Masked [None, None, Some x, None, None, Some y, None, None, None, Some z]
                      [True, True, False, True, True, False, True, True, True, False])"
    using traj1 fld1 pos1 P
    by (simp add: get_sparse_traj_field_def dset_n_rows_def np_put_def np_put_scalar_def
        masked_array_def numeral_eq_Suc)
  then have "get_traj_field a1 r t q None True
        = Inr (Masked [None, None, Some x, None, None, Some y, None, None, None, Some z]
                      [True, True, False, True, True, False, True, True, True, False])"
    using traj1 fld1 flag1 by (simp add: get_traj_field_def)
  with w show ?thesis by blast
qed

text \<open>
  Claim C1 says that the masked read of a sparse field holds, in the slot of every
  requested frame that is stored, the stored row of that frame. The read takes the stored
  rows whose index is requested in the order in which they are stored, and assigns them
  to the present slots from left to right (its comment: to put the data ``where it is
  supposed to be''). So, for a field whose stored indices \<open>S\<close> increase, with one row of
  \<open>D\<close> per index, in a trajectory that has its positions, and frames \<open>fs\<close> requested each
  once, in any order: the mask is as claimed; the present slots hold, from left to right,
  the requested stored rows in increasing order of their frames; and this is the row of
  the slot's own frame, as claimed, when the frames are requested in increasing order.
  Requested in another order, rows land in the slots of other frames. Without a selection
  (and the stored indices within the frames of the trajectory) the read is as claimed.
\<close>

theorem sparse_masked_read_stored_order:
  assumes traj: "h5_traj a r t = Inr tg" and fld: "tg p = Some (SparseGrp D S)"
    and pos: "tg POSITIONS = Some (Dataset P)"
    and flag: "p \<in> set (sparse_fields_ds (settings a))"
    and S: "sorted_wrt (<) S" and len: "length D = length S"
    and F: "distinct fs"
  shows "(\<exists>data. get_traj_field a r t p (Some fs) True
                  = Inr (Masked data (map (\<lambda>i. i \<notin> set S) fs))
           \<and> length data = length fs
           \<and> (\<forall>j<length fs. fs ! j \<notin> set S \<longrightarrow> data ! j = None)
           \<and> map ((!) data) (filter (\<lambda>j. fs ! j \<in> set S) [0..<length fs])
               = map (\<lambda>k. Some (D ! k)) (filter (\<lambda>k. S ! k \<in> set fs) [0..<length S])
           \<and> (sorted_wrt (<) fs \<longrightarrow> data = map (map_of (zip S D)) fs))
       \<and> (list_all (\<lambda>i. i < length P) S \<longrightarrow>
            get_traj_field a r t p None True
            = Inr (Masked (map (map_of (zip S D)) [0..<length P])
                          (map (\<lambda>i. i \<notin> set S) [0..<length P])))"
proof -
  from sparse_read_frames_any [OF traj fld pos flag S len F]
  obtain data where
    g: "get_traj_field a r t p (Some fs) True = Inr (Masked data (map (\<lambda>i. i \<notin> set S) fs))"
    and rest: "length data = length fs"
      "\<forall>j<length fs. fs ! j \<notin> set S \<longrightarrow> data ! j = None"
      "map ((!) data) (filter (\<lambda>j. fs ! j \<in> set S) [0..<length fs])
         = map (\<lambda>k. Some (D ! k)) (filter (\<lambda>k. S ! k \<in> set fs) [0..<length S])"
    by blast
  have "data = map (map_of (zip S D)) fs" if "sorted_wrt (<) fs"
    using sparse_read_frames [OF traj fld pos flag S len that] g by simp
  with g rest have 1: "\<exists>data. get_traj_field a r t p (Some fs) True
                  = Inr (Masked data (map (\<lambda>i. i \<notin> set S) fs))
           \<and> length data = length fs
           \<and> (\<forall>j<length fs. fs ! j \<notin> set S \<longrightarrow> data ! j = None)
           \<and> map ((!) data) (filter (\<lambda>j. fs ! j \<in> set S) [0..<length fs])
               = map (\<lambda>k. Some (D ! k)) (filter (\<lambda>k. S ! k \<in> set fs) [0..<length S])
           \<and> (sorted_wrt (<) fs \<longrightarrow> data = map (map_of (zip S D)) fs)"
    by blast
  have 2: "get_traj_field a r t p None True
            = Inr (Masked (map (map_of (zip S D)) [0..<length P])
                          (map (\<lambda>i. i \<notin> set S) [0..<length P]))"
    if "list_all (\<lambda>i. i < length P) S"
    by (rule sparse_read_all [OF traj fld pos flag S that len])
  from 1 2 show ?thesis by blast
qed

text \<open>
  On the example trajectory (rows 20, 50, 90 stored for the frames 2, 5, 9 of ten), the
  frames 9 and 2 requested in this order: the slot of frame 9 holds 20, the row of frame
  2, and the slot of frame 2 holds 90, the row of frame 9, where the rows of the frames 9
  and 2 are 90 and 20. Requested in increasing order, and without a selection, every
  slot holds its own row.
\<close>

theorem sparse_masked_read_stored_order_witness:
  "get_traj_field sparse_archive 0 0 ''observables/rmsd'' (Some [9, 2]) True
     = Inr (Masked [Some 20, Some 90] [False, False])
   \<and> map (map_of (zip [2, 5, 9] [20, 50, 90 :: nat])) [9, 2 :: nat] = [Some 90, Some 20]
   \<and> get_traj_field sparse_archive 0 0 ''observables/rmsd'' (Some [1, 2, 9, 12]) True
     = Inr (Masked [None, Some 20, Some 90, None] [True, False, False, True])
   \<and> get_traj_field sparse_archive 0 0 ''observables/rmsd'' None True
     = Inr (Masked [None, None, Some 20, None, None, Some 50, None, None, None, Some 90]
                   [True, True, False, True, True, False, True, True, True, False])"
proof -
  let ?tg = "[POSITIONS \<mapsto> Dataset [0, 1, 2, 3, 4, 5, 6, 7, 8, 9 :: nat],
              ''observables/rmsd'' \<mapsto> SparseGrp [20, 50, 90 :: nat] [2, 5, 9]]"
  have traj: "h5_traj sparse_archive 0 0 = Inr ?tg"
    by (simp add: h5_traj_def sparse_archive_def)
  have fld: "?tg ''observables/rmsd'' = Some (SparseGrp [20, 50, 90] [2, 5, 9])" by simp
  have pos: "?tg POSITIONS = Some (Dataset [0, 1, 2, 3, 4, 5, 6, 7, 8, 9])"
    by (simp add: POSITIONS_def)
  have flag: "''observables/rmsd'' \<in> set (sparse_fields_ds (settings sparse_archive))"
    by (simp add: sparse_archive_def)
  have S: "sorted_wrt (<) [2, 5, 9 :: nat]" by simp
  have len: "length [20, 50, 90 :: nat] = length [2, 5, 9 :: nat]" by simp
  have F: "distinct [9, 2 :: nat]" and F': "distinct [1, 2, 9, 12 :: nat]" by simp_all
  have inr: "list_all (\<lambda>i. i < length [0, 1, 2, 3, 4, 5, 6, 7, 8, 9 :: nat]) [2, 5, 9]" by simp
  from sparse_masked_read_stored_order [OF traj fld pos flag S len F]
  obtain data where
    g: "get_traj_field sparse_archive 0 0 ''observables/rmsd'' (Some [9, 2]) True
        = Inr (Masked data (map (\<lambda>i. i \<notin> set [2, 5, 9 :: nat]) [9, 2 :: nat]))"
    and l: "length data = length [9, 2 :: nat]"
    and p: "map ((!) data) (filter (\<lambda>j. [9, 2] ! j \<in> set [2, 5, 9 :: nat]) [0..<length [9, 2 :: nat]])
            = map (\<lambda>k. Some ([20, 50, 90 :: nat] ! k))
                (filter (\<lambda>k. [2, 5, 9] ! k \<in> set [9, 2 :: nat]) [0..<length [2, 5, 9 :: nat]])"
    by blast
  have js: "filter (\<lambda>j. [9, 2] ! j \<in> set [2, 5, 9 :: nat]) [0..<length [9, 2 :: nat]] = [0, 1]"
    by (simp add: upt_rec)
  have ks: "filter (\<lambda>k. [2, 5, 9] ! k \<in> set [9, 2 :: nat]) [0..<length [2, 5, 9 :: nat]] = [0, 2]"
    by (simp add: upt_rec)
  from p have "[data ! 0, data ! 1] = [Some 20, Some 90]"
    unfolding js ks by simp
  moreover from l obtain d0 d1 where "data = [d0, d1]"
    by (auto simp: length_Suc_conv numeral_2_eq_2)
  ultimately have "data = [Some 20, Some 90]" by simp
  with g have 1: "get_traj_field sparse_archive 0 0 ''observables/rmsd'' (Some [9, 2]) True
     = Inr (Masked [Some 20, Some 90] [False, False])" by simp
  from sparse_masked_read_stored_order [OF traj fld pos flag S len F']
  obtain data' where
    g': "get_traj_field sparse_archive 0 0 ''observables/rmsd'' (Some [1, 2, 9, 12]) True
        = Inr (Masked data' (map (\<lambda>i. i \<notin> set [2, 5, 9 :: nat]) [1, 2, 9, 12 :: nat]))"
    and s': "sorted_wrt (<) [1, 2, 9, 12 :: nat]
             \<longrightarrow> data' = map (map_of (zip [2, 5, 9] [20, 50, 90 :: nat])) [1, 2, 9, 12 :: nat]"
    by blast
  from s' have "data' = [None, Some 20, Some 90, None]" by simp
  with g' have 2: "get_traj_field sparse_archive 0 0 ''observables/rmsd'' (Some [1, 2, 9, 12]) True
     = Inr (Masked [None, Some 20, Some 90, None] [True, False, False, True])" by simp
  from sparse_masked_read_stored_order [OF traj fld pos flag S len F] inr
  have "get_traj_field sparse_archive 0 0 ''observables/rmsd'' None True
        = Inr (Masked (map (map_of (zip [2, 5, 9] [20, 50, 90 :: nat]))
                         [0..<length [0, 1, 2, 3, 4, 5, 6, 7, 8, 9 :: nat]])
                      (map (\<lambda>i. i \<notin> set [2, 5, 9 :: nat])
                         [0..<length [0, 1, 2, 3, 4, 5, 6, 7, 8, 9 :: nat]]))"
    by blast
  then have 3: "get_traj_field sparse_archive 0 0 ''observables/rmsd'' None True
     = Inr (Masked [None, None, Some 20, None, None, Some 50, None, None, None, Some 90]
                   [True, True, False, True, True, False, True, True, True, False])"
    by (simp add: upt_rec)
  from 1 2 3 show ?thesis by simp
qed

section \<open>Properties: field traces over a contig\<close>

lemma ebind_eq_Inr: "ebind m f = Inr y \<longleftrightarrow> (\<exists>x. m = Inr x \<and> f x = Inr y)"
  by (cases m) simp_all

lemma group_trace_frames:
  "fst (group_trace tr rf ro) r = rf r @ map snd (filter (\<lambda>p. fst p = r) tr)"
proof (induction tr arbitrary: rf ro)
  case Nil
  then show ?case by simp
next
  case (Cons p tr)
  obtain run c where p: "p = (run, c)" by (cases p)
  let ?ro = "if \<not> run \<in> set ro then ro @ [run] else ro"
  have "fst (group_trace (p # tr) rf ro) r = fst (group_trace tr (rf(run := rf run @ [c])) ?ro) r"
    by (simp only: p group_trace.simps)
  also have "\<dots> = (rf(run := rf run @ [c])) r @ map snd (filter (\<lambda>p. fst p = r) tr)"
    by (rule Cons.IH)
  also have "\<dots> = rf r @ map snd (filter (\<lambda>p. fst p = r) (p # tr))"
    by (simp add: p)
  finally show ?case .
qed

lemma group_trace_snd:
  "snd (group_trace tr rf ro)
   = fold (\<lambda>p acc. if \<not> fst p \<in> set acc then acc @ [fst p] else acc) tr ro"
proof (induction tr arbitrary: rf ro)
  case Nil
  then show ?case by simp
next
  case (Cons p tr)
  obtain run c where p: "p = (run, c)" by (cases p)
  let ?ro = "if \<not> run \<in> set ro then ro @ [run] else ro"
  let ?F = "\<lambda>p acc. if \<not> fst p \<in> set acc then acc @ [fst p] else acc"
  have "snd (group_trace (p # tr) rf ro) = snd (group_trace tr (rf(run := rf run @ [c])) ?ro)"
    by (simp only: p group_trace.simps)
  also have "\<dots> = fold ?F tr ?ro"
    by (rule Cons.IH)
  also have "\<dots> = fold ?F (p # tr) ro"
    by (simp add: p)
  finally show ?case .
qed

lemma fold_run_order_set:
  "set (fold (\<lambda>p acc. if \<not> fst p \<in> set acc then acc @ [fst p] else acc) tr ro)
   = set ro \<union> fst ` set tr"
  by (induction tr arbitrary: ro) auto

lemma group_trace_runs_set: "set (snd (group_trace tr rf ro)) = set ro \<union> fst ` set tr"
  by (simp only: group_trace_snd fold_run_order_set)

lemma trace_frames_eq: "trace_frames tr r = map snd (filter (\<lambda>p. fst p = r) tr)"
  by (simp add: trace_frames_def group_trace_frames)

lemma trace_runs_set: "set (trace_runs tr) = fst ` set tr"
  by (simp add: trace_runs_def group_trace_runs_set)

lemma np_put_length: "np_put arr idxs rows = Inr res \<Longrightarrow> length res = length arr"
  by (auto simp: np_put_def split: if_splits)

lemma np_put_scalar_length: "np_put_scalar arr idxs v = Inr res \<Longrightarrow> length res = length arr"
  by (auto simp: np_put_scalar_def split: if_splits)

lemma h5_select_length: "h5_select rows idxs = Inr res \<Longrightarrow> length res = length idxs"
  by (auto simp: h5_select_def split: if_splits)

lemma get_sparse_traj_field_length:
  assumes h: "get_sparse_traj_field a r t f (Some fs) True = Inr v"
  shows "length (arr_cells v) = length fs"
proof -
  from h obtain tg where tg: "h5_traj a r t = Inr tg"
    by (auto simp: get_sparse_traj_field_def ebind_eq_Inr)
  from h tg obtain field where field: "tg f = Some field"
    by (cases "tg f") (auto simp: get_sparse_traj_field_def)
  from h tg field obtain n where n: "dset_n_rows (tg POSITIONS) = Inr n"
    by (cases "dset_n_rows (tg POSITIONS)") (auto simp: get_sparse_traj_field_def)
  from h tg field n obtain D S where ds: "field = SparseGrp D S"
    by (cases field) (auto simp: get_sparse_traj_field_def)
  let ?ks = "filter (\<lambda>k. S ! k \<in> set fs) [0..<length S]"
  let ?js = "filter (\<lambda>j. fs ! j \<in> set S) [0..<length fs]"
  from h tg field n ds have
    "ebind (h5_select D ?ks) (\<lambda>data.
       ebind (np_put (replicate (length fs) None) ?js (map Some data)) (\<lambda>filled_data.
       ebind (np_put_scalar (replicate (length fs) True) ?js False) (\<lambda>mask_arr.
         Inr (masked_array filled_data mask_arr)))) = Inr v"
    by (simp add: get_sparse_traj_field_def Let_def)
  then obtain data filled mask_arr where
    "np_put (replicate (length fs) None) ?js (map Some data) = Inr filled"
    "np_put_scalar (replicate (length fs) True) ?js False = Inr mask_arr"
    "v = masked_array filled mask_arr"
    unfolding ebind_eq_Inr by auto
  then have "length filled = length fs" "length mask_arr = length fs"
    "v = masked_array filled mask_arr"
    by (auto dest: np_put_length np_put_scalar_length)
  then show ?thesis by (simp add: masked_array_def)
qed

lemma get_contiguous_traj_field_length:
  assumes h: "get_contiguous_traj_field a r t f (Some fs) = Inr rows"
  shows "length rows = length fs"
proof -
  from h obtain tg where tg: "h5_traj a r t = Inr tg"
    by (auto simp: get_contiguous_traj_field_def ebind_eq_Inr)
  from h tg obtain field where field: "tg f = Some field"
    by (cases "tg f") (auto simp: get_contiguous_traj_field_def)
  from h tg field obtain D where "field = Dataset D"
    by (cases field) (auto simp: get_contiguous_traj_field_def)
  with h tg field have "h5_select D fs = Inr rows"
    by (simp add: get_contiguous_traj_field_def)
  then show ?thesis by (rule h5_select_length)
qed

lemma get_traj_field_length:
  assumes "get_traj_field a r t f (Some fs) True = Inr v"
  shows "length (arr_cells v) = length fs"
proof -
  from assms obtain tg where tg: "h5_traj a r t = Inr tg"
    by (auto simp: get_traj_field_def ebind_eq_Inr)
  show ?thesis
  proof (cases "f \<in> set (sparse_fields_ds (settings a))")
    case True
    with assms tg have "get_sparse_traj_field a r t f (Some fs) True = Inr v"
      by (auto simp: get_traj_field_def split: if_splits)
    then show ?thesis by (rule get_sparse_traj_field_length)
  next
    case False
    with assms tg obtain rows where "get_contiguous_traj_field a r t f (Some fs) = Inr rows"
      and v: "v = Plain rows"
      by (auto simp: get_traj_field_def ebind_eq_Inr split: if_splits)
    from get_contiguous_traj_field_length [OF this(1)] v show ?thesis by simp
  qed
qed

lemma upt_split_add: "[0..<a + b] = [0..<a] @ map (\<lambda>c. a + c) [0..<b]"
proof -
  have "map (\<lambda>c. a + c) [0..<b] = map (\<lambda>c. c + a) [0..<b]"
    by (rule map_cong [OF refl]) simp
  also have "\<dots> = [a..<b + a]" by (rule map_add_upt)
  finally have shift: "map (\<lambda>c. a + c) [0..<b] = [a..<a + b]" by (simp only: add.commute)
  have "[0..<a + b] = [0..<a] @ [a..<a + b]" by (rule upt_add_eq_append) simp
  then show ?thesis unfolding shift .
qed

lemma stack_blocks:
  assumes "\<And>r t. r \<in> set rs \<Longrightarrow> t < n \<Longrightarrow> length (B r t) = L r"
  shows "map (\<lambda>c. map (\<lambda>t. concat (map (\<lambda>r. B r t) rs) ! c) [0..<n]) [0..<sum_list (map L rs)]
         = concat (map (\<lambda>r. map (\<lambda>c. map (\<lambda>t. B r t ! c) [0..<n]) [0..<L r]) rs)"
  using assms
proof (induction rs)
  case Nil
  then show ?case by simp
next
  case (Cons r rs)
  let ?rest = "\<lambda>t. concat (map (\<lambda>r. B r t) rs)"
  have len: "length (B r t) = L r" if "t < n" for t using Cons.prems [of r t] that by simp
  have low: "map (\<lambda>t. (B r t @ ?rest t) ! c) [0..<n] = map (\<lambda>t. B r t ! c) [0..<n]"
    if "c < L r" for c
    by (rule map_cong [OF refl]) (simp add: nth_append len that)
  have high: "map (\<lambda>t. (B r t @ ?rest t) ! (L r + c)) [0..<n] = map (\<lambda>t. ?rest t ! c) [0..<n]"
    for c
    by (rule map_cong [OF refl]) (simp add: nth_append len)
  have IH: "map (\<lambda>c. map (\<lambda>t. ?rest t ! c) [0..<n]) [0..<sum_list (map L rs)]
         = concat (map (\<lambda>r. map (\<lambda>c. map (\<lambda>t. B r t ! c) [0..<n]) [0..<L r]) rs)"
    by (rule Cons.IH) (use Cons.prems in auto)
  have "map (\<lambda>c. map (\<lambda>t. concat (map (\<lambda>r. B r t) (r # rs)) ! c) [0..<n])
          [0..<sum_list (map L (r # rs))]
        = map (\<lambda>c. map (\<lambda>t. (B r t @ ?rest t) ! c) [0..<n]) [0..<L r + sum_list (map L rs)]"
    by simp
  also have "\<dots> = map (\<lambda>c. map (\<lambda>t. (B r t @ ?rest t) ! c) [0..<n]) [0..<L r]
                 @ map (\<lambda>c. map (\<lambda>t. (B r t @ ?rest t) ! (L r + c)) [0..<n])
                     [0..<sum_list (map L rs)]"
    unfolding upt_split_add map_append map_map comp_def ..
  also have "map (\<lambda>c. map (\<lambda>t. (B r t @ ?rest t) ! c) [0..<n]) [0..<L r]
             = map (\<lambda>c. map (\<lambda>t. B r t ! c) [0..<n]) [0..<L r]"
    by (rule map_cong [OF refl]) (simp add: low)
  also have "map (\<lambda>c. map (\<lambda>t. (B r t @ ?rest t) ! (L r + c)) [0..<n]) [0..<sum_list (map L rs)]
             = map (\<lambda>c. map (\<lambda>t. ?rest t ! c) [0..<n]) [0..<sum_list (map L rs)]"
    by (rule map_cong [OF refl]) (simp only: high)
  finally show ?case unfolding IH by simp
qed

lemma contig_trace_fields_eq:
  assumes ne: "contig_trace \<noteq> []"
    and trajs: "\<And>r. r \<in> set (trace_runs contig_trace) \<Longrightarrow> num_run_trajs a r = Inr n"
    and pos: "0 < n"
    and reads: "\<And>f r t. f \<in> set field_paths \<Longrightarrow> r \<in> set (trace_runs contig_trace) \<Longrightarrow> t < n \<Longrightarrow>
                  get_traj_field a r t f (Some (trace_frames contig_trace r)) True = Inr (vals f r t)"
  shows "get_contig_trace_fields a contig_trace field_paths
         = Inr (map (\<lambda>f. (f, concat (map (trace_block n (vals f) (trace_frames contig_trace))
                                     (trace_runs contig_trace)))) field_paths)"
proof -
  define F where "F = trace_frames contig_trace"
  define rs where "rs = trace_runs contig_trace"
  have grp: "group_trace contig_trace (\<lambda>r. []) [] = (F, rs)"
    by (simp add: F_def rs_def trace_frames_def trace_runs_def)
  have "set rs \<noteq> {}" using ne by (simp add: rs_def trace_runs_set)
  then obtain first other where rs_eq: "rs = first # other" by (cases rs) auto
  have nt: "num_run_trajs a r = Inr n" if "r \<in> set rs" for r
    using trajs that by (simp add: rs_def)
  have first: "num_run_trajs a first = Inr n" by (rule nt) (simp add: rs_eq)
  have all: "emap (num_run_trajs a) rs = Inr (map (\<lambda>r. n) rs)"
    by (rule emap_total) (rule nt)
  have idxs: "run_traj_idxs a r = Inr [0..<n]" if "r \<in> set rs" for r
    using nt [OF that] by (auto simp: num_run_trajs_def run_traj_idxs_def split: if_splits)
  have field: "ebind (emap (run_bundle a F f) rs) (\<lambda>bundles.
                 ebind (np_swapaxes01 (np_hstack bundles)) (\<lambda>field_log. Inr (f, field_log)))
               = Inr (f, concat (map (trace_block n (vals f) F) rs))"
    if f: "f \<in> set field_paths" for f
  proof -
    let ?B = "\<lambda>r t. arr_cells (vals f r t)"
    have rd: "get_traj_field a r t f (Some (F r)) True = Inr (vals f r t)"
      if "r \<in> set rs" "t < n" for r t
      using reads [OF f, of r t] that by (simp add: F_def rs_def)
    have lenB: "length (?B r t) = length (F r)" if "r \<in> set rs" "t < n" for r t
      by (rule get_traj_field_length [OF rd [OF that]])
    have bndl: "run_bundle a F f r = Inr (map (\<lambda>t. ?B r t) [0..<n])" if r: "r \<in> set rs" for r
    proof -
      have "emap (\<lambda>traj_idx. get_traj_field a r traj_idx f (Some (F r)) True) [0..<n]
            = Inr (map (\<lambda>t. vals f r t) [0..<n])"
        by (rule emap_total) (simp add: rd r)
      then show ?thesis by (simp add: run_bundle_def idxs [OF r] comp_def)
    qed
    have bundles: "emap (run_bundle a F f) rs = Inr (map (\<lambda>r. map (\<lambda>t. ?B r t) [0..<n]) rs)"
      by (rule emap_total) (rule bndl)
    have hstack: "np_hstack (map (\<lambda>r. map (\<lambda>t. ?B r t) [0..<n]) rs)
                  = map (\<lambda>t. concat (map (\<lambda>r. ?B r t) rs)) [0..<n]"
    proof -
      have "map (\<lambda>t. concat (map (\<lambda>bundle. bundle ! t) (map (\<lambda>r. map (\<lambda>t. ?B r t) [0..<n]) rs)))
              [0..<n]
            = map (\<lambda>t. concat (map (\<lambda>r. ?B r t) rs)) [0..<n]"
        by (rule map_cong [OF refl]) (simp add: comp_def)
      then show ?thesis by (simp add: np_hstack_def rs_eq)
    qed
    define N where "N = sum_list (map (\<lambda>r. length (F r)) rs)"
    have row0: "length (concat (map (\<lambda>r. ?B r 0) rs)) = N"
    proof -
      have eq: "map (\<lambda>r. length (?B r 0)) rs = map (\<lambda>r. length (F r)) rs"
        by (rule map_cong [OF refl]) (simp add: lenB pos)
      have "length (concat (map (\<lambda>r. ?B r 0) rs)) = sum_list (map (\<lambda>r. length (?B r 0)) rs)"
        by (simp add: length_concat comp_def)
      then show ?thesis unfolding eq N_def .
    qed
    have upt: "[0..<n] = 0 # [1..<n]" using pos by (simp add: upt_conv_Cons)
    have swap: "np_swapaxes01 (map (\<lambda>t. concat (map (\<lambda>r. ?B r t) rs)) [0..<n])
                = Inr (map (\<lambda>c. map (\<lambda>t. concat (map (\<lambda>r. ?B r t) rs) ! c) [0..<n]) [0..<N])"
    proof -
      have "np_swapaxes01 (map (\<lambda>t. concat (map (\<lambda>r. ?B r t) rs)) (0 # [1..<n]))
            = Inr (map (\<lambda>c. map (\<lambda>row. row ! c)
                            (map (\<lambda>t. concat (map (\<lambda>r. ?B r t) rs)) (0 # [1..<n]))) [0..<N])"
        by (simp add: np_swapaxes01_def row0)
      then show ?thesis unfolding upt [symmetric] by (simp add: comp_def)
    qed
    have "map (\<lambda>c. map (\<lambda>t. concat (map (\<lambda>r. ?B r t) rs) ! c) [0..<n]) [0..<N]
          = concat (map (\<lambda>r. map (\<lambda>c. map (\<lambda>t. ?B r t ! c) [0..<n]) [0..<length (F r)]) rs)"
      unfolding N_def by (rule stack_blocks) (rule lenB)
    moreover have "trace_block n (vals f) F
                   = (\<lambda>r. map (\<lambda>c. map (\<lambda>t. ?B r t ! c) [0..<n]) [0..<length (F r)])"
      by (rule ext) (simp add: trace_block_def)
    ultimately show ?thesis
      by (simp add: bundles hstack swap)
  qed
  have fields: "emap (\<lambda>field.
                ebind (emap (run_bundle a F field) rs) (\<lambda>bundles.
                ebind (np_swapaxes01 (np_hstack bundles)) (\<lambda>field_log.
                  Inr (field, field_log)))) field_paths
        = Inr (map (\<lambda>f. (f, concat (map (trace_block n (vals f) F) rs))) field_paths)"
    by (rule emap_total) (rule field)
  have hd: "(case rs of [] \<Rightarrow> e | x # xs \<Rightarrow> g x) = g (hd rs)" for e :: 'c and g
    by (simp add: rs_eq)
  have first': "num_run_trajs a (hd rs) = Inr n"
    using first by (simp add: rs_eq)
  show ?thesis
    unfolding F_def [symmetric] rs_def [symmetric]
    by (simp add: get_contig_trace_fields_def grp hd first' all list_all_iff fields)
qed

text \<open>The read of a dense field at increasing frames within its rows returns those rows.\<close>

lemma dense_read:
  assumes "h5_traj a r t = Inr tg" and "tg f = Some (Dataset D)"
    and "f \<notin> set (sparse_fields_ds (settings a))"
    and "sorted_wrt (<) fs" and "list_all (\<lambda>i. i < length D) fs"
  shows "get_traj_field a r t f (Some fs) True = Inr (Plain (map ((!) D) fs))"
  using assms
  by (simp add: get_traj_field_def get_contiguous_traj_field_def h5_select_def)

lemma two_run_example:
  "get_contig_trace_fields (two_run_archive g)
     [(0, 0), (0, 1), (0, 2), (0, 3), (0, 4), (1, 0), (1, 1), (1, 2)] [POSITIONS]
   = Inr [(POSITIONS,
           map (\<lambda>c. map (\<lambda>t. Some (g 0 t c)) [0..<4]) [0..<5]
           @ map (\<lambda>c. map (\<lambda>t. Some (g 1 t c)) [0..<4]) [0..<3])]"
  by (simp add: get_contig_trace_fields_def two_run_archive_def run_bundle_def
      get_traj_field_def get_contiguous_traj_field_def h5_select_def h5_traj_def
      num_run_trajs_def run_traj_idxs_def np_hstack_def np_swapaxes01_def
      base_settings_def POSITIONS_def upt_rec)

text \<open>The runs and the frames that the first loop finds in the trace of a contig.\<close>

lemma fold_run_order_one:
  "fold (\<lambda>p acc. if \<not> fst p \<in> set acc then acc @ [fst p] else acc) (map (Pair r) cs) ro
   = (if cs = [] \<or> r \<in> set ro then ro else ro @ [r])"
  by (induction cs arbitrary: ro) auto

lemma fold_run_order_contig:
  assumes "distinct (ro @ rs)" and "\<forall>r\<in>set rs. cycles r \<noteq> []"
  shows "fold (\<lambda>p acc. if \<not> fst p \<in> set acc then acc @ [fst p] else acc)
           (contig_trace_of rs cycles) ro = ro @ rs"
  using assms
proof (induction rs arbitrary: ro)
  case Nil
  then show ?case by (simp add: contig_trace_of_def)
next
  case (Cons r rs)
  let ?F = "\<lambda>p acc. if \<not> fst p \<in> set acc then acc @ [fst p] else acc"
  from Cons.prems have r: "r \<notin> set ro" "cycles r \<noteq> []" by auto
  have one: "fold ?F (map (Pair r) (cycles r)) ro = ro @ [r]"
    using r by (simp only: fold_run_order_one) simp
  have "fold ?F (contig_trace_of rs cycles) (ro @ [r]) = (ro @ [r]) @ rs"
    by (rule Cons.IH) (use Cons.prems in auto)
  moreover have "contig_trace_of (r # rs) cycles
                 = map (Pair r) (cycles r) @ contig_trace_of rs cycles"
    by (simp add: contig_trace_of_def)
  ultimately show ?case by (simp only: fold_append comp_apply one) simp
qed

lemma trace_runs_contig:
  assumes "distinct rs" and "\<forall>r\<in>set rs. cycles r \<noteq> []"
  shows "trace_runs (contig_trace_of rs cycles) = rs"
  using fold_run_order_contig [of "[]" rs cycles] assms
  by (simp add: trace_runs_def group_trace_snd)

lemma trace_frames_contig:
  assumes "distinct rs" and "r \<in> set rs"
  shows "trace_frames (contig_trace_of rs cycles) r = cycles r"
proof -
  have "map snd (filter (\<lambda>p. fst p = r) (contig_trace_of rs cycles)) = cycles r"
    using assms
  proof (induction rs)
    case Nil
    then show ?case by simp
  next
    case (Cons r' rs)
    have split: "contig_trace_of (r' # rs) cycles
                 = map (Pair r') (cycles r') @ contig_trace_of rs cycles"
      by (simp add: contig_trace_of_def)
    have own: "map snd (filter (\<lambda>p. fst p = r) (map (Pair r') (cycles r')))
               = (if r' = r then cycles r else [])"
      by (simp add: filter_map comp_def)
    have parts: "map snd (filter (\<lambda>p. fst p = r) (contig_trace_of (r' # rs) cycles))
                 = (if r' = r then cycles r else [])
                   @ map snd (filter (\<lambda>p. fst p = r) (contig_trace_of rs cycles))"
      by (simp only: split filter_append map_append own)
    show ?case
    proof (cases "r' = r")
      case True
      with Cons.prems have "r \<notin> set rs" by simp
      then have "filter (\<lambda>p. fst p = r) (contig_trace_of rs cycles) = []"
        by (auto simp: contig_trace_of_def filter_empty_conv)
      with True parts show ?thesis by simp
    next
      case False
      with Cons.prems have "distinct rs" "r \<in> set rs" by auto
      from Cons.IH [OF this] False parts show ?thesis by simp
    qed
  qed
  then show ?thesis by (simp add: trace_frames_eq)
qed

text \<open>
  The read of a readable field at increasing cycles returns, slot by slot, what the
  trajectory stores for the field at the cycle.
\<close>

lemma read_stored_cells:
  assumes traj: "h5_traj a r t = Inr tg"
    and ok: "field_readable (settings a) tg f cs" and cs: "sorted_wrt (<) cs"
  shows "\<exists>v. get_traj_field a r t f (Some cs) True = Inr v
            \<and> arr_cells v = map (stored_cell tg f) cs"
proof (cases "tg f")
  case None
  with ok show ?thesis by (simp add: field_readable_def)
next
  case (Some field)
  show ?thesis
  proof (cases field)
    case (Dataset rows)
    with ok Some have dense: "f \<notin> set (sparse_fields_ds (settings a))"
      and inr: "list_all (\<lambda>c. c < length rows) cs"
      by (simp_all add: field_readable_def)
    from Some Dataset have fld: "tg f = Some (Dataset rows)" by simp
    have "get_traj_field a r t f (Some cs) True = Inr (Plain (map ((!) rows) cs))"
      by (rule dense_read [OF traj fld dense cs inr])
    moreover have "arr_cells (Plain (map ((!) rows) cs)) = map (stored_cell tg f) cs"
      by (simp add: stored_cell_def fld comp_def)
    ultimately show ?thesis by blast
  next
    case (SparseGrp D S)
    from Some SparseGrp have fld: "tg f = Some (SparseGrp D S)" by simp
    from ok fld have flag: "f \<in> set (sparse_fields_ds (settings a))"
      and S: "sorted_wrt (<) S" and len: "length D = length S"
      and p: "case tg POSITIONS of Some (Dataset rows) \<Rightarrow> True | _ \<Rightarrow> False"
      by (simp_all add: field_readable_def)
    from p obtain P where pos: "tg POSITIONS = Some (Dataset P)"
      by (auto split: option.splits field.splits)
    have "get_traj_field a r t f (Some cs) True
          = Inr (Masked (map (map_of (zip S D)) cs) (map (\<lambda>i. i \<notin> set S) cs))"
      by (rule sparse_read_frames [OF traj fld pos flag S len cs])
    moreover have "arr_cells (Masked (map (map_of (zip S D)) cs) (map (\<lambda>i. i \<notin> set S) cs))
                   = map (stored_cell tg f) cs"
      by (simp add: stored_cell_def fld)
    ultimately show ?thesis by blast
  qed
qed

lemma map_nth_of: "map (\<lambda>i. g (xs ! i)) [0..<length xs] = map g xs"
proof -
  have "map g xs = map g (map ((!) xs) [0..<length xs])" by (simp only: map_nth)
  then show ?thesis by (simp add: comp_def)
qed

text \<open>Runs from which no cycle is selected leave no entry in the trace.\<close>

lemma contig_trace_of_selected:
  "contig_trace_of (filter (\<lambda>r. cycles r \<noteq> []) rs) cycles = contig_trace_of rs cycles"
  by (induction rs) (simp_all add: contig_trace_of_def)

lemma contig_trace_read:
  assumes ne: "rs \<noteq> []" and dist: "distinct rs"
    and cyc: "\<forall>r\<in>set rs. cycles r \<noteq> [] \<and> sorted_wrt (<) (cycles r)"
    and trajs: "\<forall>r\<in>set rs. r < length (runs a) \<and> length (trajectories (runs a ! r)) = n"
    and pos: "0 < n"
    and fields: "\<forall>f\<in>set field_paths. \<forall>r\<in>set rs. \<forall>t<n.
                   field_readable (settings a) (trajectories (runs a ! r) ! t) f (cycles r)"
  shows "get_contig_trace_fields a (contig_trace_of rs cycles) field_paths
           = Inr (map (\<lambda>f. (f, map (\<lambda>(r, c). map (\<lambda>t. stored_cell (trajectories (runs a ! r) ! t) f c)
                                                 [0..<n])
                                 (contig_trace_of rs cycles))) field_paths)"
proof -
  define tr where "tr = contig_trace_of rs cycles"
  define tg where "tg = (\<lambda>r t. trajectories (runs a ! r) ! t)"
  define vals where
    "vals = (\<lambda>f r t. case get_traj_field a r t f (Some (cycles r)) True of
                       Inr v \<Rightarrow> v | Inl e \<Rightarrow> Plain [])"
  have runs: "trace_runs tr = rs"
    unfolding tr_def by (rule trace_runs_contig [OF dist]) (use cyc in blast)
  have frames: "trace_frames tr r = cycles r" if "r \<in> set rs" for r
    unfolding tr_def by (rule trace_frames_contig [OF dist that])
  have tr_ne: "tr \<noteq> []"
  proof
    assume "tr = []"
    then have "trace_runs tr = []" by (simp add: trace_runs_def)
    with runs ne show False by simp
  qed
  have n_trajs: "num_run_trajs a r = Inr n" if "r \<in> set (trace_runs tr)" for r
    using that trajs runs by (simp add: num_run_trajs_def)
  have read: "get_traj_field a r t f (Some (cycles r)) True = Inr (vals f r t)
              \<and> arr_cells (vals f r t) = map (stored_cell (tg r t) f) (cycles r)"
    if f: "f \<in> set field_paths" and r: "r \<in> set rs" and t: "t < n" for f r t
  proof -
    from trajs r t have traj: "h5_traj a r t = Inr (tg r t)"
      by (simp add: h5_traj_def tg_def)
    from fields f r t have ok: "field_readable (settings a) (tg r t) f (cycles r)"
      by (simp add: tg_def)
    from cyc r have "sorted_wrt (<) (cycles r)" by blast
    from read_stored_cells [OF traj ok this] obtain v where
      "get_traj_field a r t f (Some (cycles r)) True = Inr v"
      "arr_cells v = map (stored_cell (tg r t) f) (cycles r)" by blast
    then show ?thesis by (simp add: vals_def)
  qed
  have reads: "get_traj_field a r t f (Some (trace_frames tr r)) True = Inr (vals f r t)"
    if "f \<in> set field_paths" "r \<in> set (trace_runs tr)" "t < n" for f r t
    using read [of f r t] that runs frames [of r] by simp
  have eq: "get_contig_trace_fields a tr field_paths
            = Inr (map (\<lambda>f. (f, concat (map (trace_block n (vals f) (trace_frames tr))
                                         (trace_runs tr)))) field_paths)"
    by (rule contig_trace_fields_eq [OF tr_ne n_trajs pos reads])
  have block: "trace_block n (vals f) (trace_frames tr) r
               = map (\<lambda>c. map (\<lambda>t. stored_cell (tg r t) f c) [0..<n]) (cycles r)"
    if f: "f \<in> set field_paths" and r: "r \<in> set rs" for f r
  proof -
    have "map (\<lambda>i. map (\<lambda>t. arr_cells (vals f r t) ! i) [0..<n]) [0..<length (cycles r)]
          = map (\<lambda>i. map (\<lambda>t. stored_cell (tg r t) f (cycles r ! i)) [0..<n])
              [0..<length (cycles r)]"
    proof (rule map_cong [OF refl])
      fix i assume "i \<in> set [0..<length (cycles r)]"
      then have i: "i < length (cycles r)" by simp
      show "map (\<lambda>t. arr_cells (vals f r t) ! i) [0..<n]
            = map (\<lambda>t. stored_cell (tg r t) f (cycles r ! i)) [0..<n]"
        by (rule map_cong [OF refl]) (use read [OF f r] i in simp)
    qed
    also have "\<dots> = map (\<lambda>c. map (\<lambda>t. stored_cell (tg r t) f c) [0..<n]) (cycles r)"
      by (rule map_nth_of)
    finally show ?thesis by (simp add: trace_block_def frames [OF r])
  qed
  have rows: "concat (map (trace_block n (vals f) (trace_frames tr)) (trace_runs tr))
              = map (\<lambda>(r, c). map (\<lambda>t. stored_cell (tg r t) f c) [0..<n]) tr"
    if f: "f \<in> set field_paths" for f
  proof -
    have "map (trace_block n (vals f) (trace_frames tr)) rs
          = map (\<lambda>r. map (\<lambda>c. map (\<lambda>t. stored_cell (tg r t) f c) [0..<n]) (cycles r)) rs"
      by (rule map_cong [OF refl]) (rule block [OF f])
    moreover have "map (\<lambda>(r, c). map (\<lambda>t. stored_cell (tg r t) f c) [0..<n]) tr
          = concat (map (\<lambda>r. map (\<lambda>c. map (\<lambda>t. stored_cell (tg r t) f c) [0..<n]) (cycles r)) rs)"
      by (simp add: tr_def contig_trace_of_def map_concat comp_def)
    ultimately show ?thesis by (simp only: runs)
  qed
  have "map (\<lambda>f. (f, concat (map (trace_block n (vals f) (trace_frames tr)) (trace_runs tr))))
          field_paths
        = map (\<lambda>f. (f, map (\<lambda>(r, c). map (\<lambda>t. stored_cell (tg r t) f c) [0..<n]) tr)) field_paths"
    by (rule map_cong [OF refl]) (simp only: rows)
  with eq show ?thesis by (simp only: tr_def tg_def)
qed


text \<open>
  Claim C4. Take a contig, a list of different runs, all with \<open>n\<close> trajectory slots (at
  least one); from every run an ordered selection of its cycles, at least one cycle in
  all; and fields that every slot of these runs stores as the settings say and for the
  selected cycles. The trace read of the contig with these cycles returns for every field
  one array with a row per entry of the trace, in the order of the trace, that is, run
  after run in the order of the contig and cycle after cycle within a run, and with \<open>n\<close>
  entries per row: the entry in the row of run \<open>r\<close>, cycle \<open>c\<close> and in column \<open>t\<close> is
  what slot \<open>t\<close> of run \<open>r\<close> stores for the field at cycle \<open>c\<close>. For two runs of 5 and 3
  cycles with 4 slots the result has 8 rows of 4 entries, rows 0 to 4 from run 0 and rows
  5 to 7 from run 1.
\<close>

theorem contig_trace_concatenation:
  assumes ne: "contig_trace_of rs cycles \<noteq> []" and dist: "distinct rs"
    and cyc: "\<forall>r\<in>set rs. sorted_wrt (<) (cycles r)"
    and trajs: "\<forall>r\<in>set rs. r < length (runs a) \<and> length (trajectories (runs a ! r)) = n"
    and pos: "0 < n"
    and fields: "\<forall>f\<in>set field_paths. \<forall>r\<in>set rs. \<forall>t<n.
                   field_readable (settings a) (trajectories (runs a ! r) ! t) f (cycles r)"
  shows "get_contig_trace_fields a (contig_trace_of rs cycles) field_paths
           = Inr (map (\<lambda>f. (f, map (\<lambda>(r, c). map (\<lambda>t. stored_cell (trajectories (runs a ! r) ! t) f c)
                                                 [0..<n])
                                 (contig_trace_of rs cycles))) field_paths)
       \<and> length (contig_trace_of rs cycles) = sum_list (map (\<lambda>r. length (cycles r)) rs)
       \<and> get_contig_trace_fields (two_run_archive g)
            [(0, 0), (0, 1), (0, 2), (0, 3), (0, 4), (1, 0), (1, 1), (1, 2)] [POSITIONS]
          = Inr [(POSITIONS,
                  map (\<lambda>c. map (\<lambda>t. Some (g 0 t c)) [0..<4]) [0..<5]
                  @ map (\<lambda>c. map (\<lambda>t. Some (g 1 t c)) [0..<4]) [0..<3])]"
proof -
  define sel where "sel = filter (\<lambda>r. cycles r \<noteq> []) rs"
  have same: "contig_trace_of sel cycles = contig_trace_of rs cycles"
    unfolding sel_def by (rule contig_trace_of_selected)
  have sub: "set sel \<subseteq> set rs" by (auto simp: sel_def)
  have ne': "sel \<noteq> []"
  proof
    assume "sel = []"
    then have "contig_trace_of sel cycles = []" by (simp add: contig_trace_of_def)
    with same ne show False by simp
  qed
  have dist': "distinct sel" using dist by (simp add: sel_def)
  have cyc': "\<forall>r\<in>set sel. cycles r \<noteq> [] \<and> sorted_wrt (<) (cycles r)"
    using cyc by (simp add: sel_def)
  have trajs': "\<forall>r\<in>set sel. r < length (runs a) \<and> length (trajectories (runs a ! r)) = n"
    using trajs sub by blast
  have fields': "\<forall>f\<in>set field_paths. \<forall>r\<in>set sel. \<forall>t<n.
                   field_readable (settings a) (trajectories (runs a ! r) ! t) f (cycles r)"
    using fields sub by blast
  have 1: "get_contig_trace_fields a (contig_trace_of rs cycles) field_paths
           = Inr (map (\<lambda>f. (f, map (\<lambda>(r, c). map (\<lambda>t. stored_cell (trajectories (runs a ! r) ! t) f c)
                                                 [0..<n])
                                 (contig_trace_of rs cycles))) field_paths)"
    using contig_trace_read [OF ne' dist' cyc' trajs' pos fields'] by (simp only: same)
  have 2: "length (contig_trace_of rs cycles) = sum_list (map (\<lambda>r. length (cycles r)) rs)"
    by (simp add: contig_trace_of_def length_concat comp_def)
  from 1 2 two_run_example [of g] show ?thesis by blast
qed

text \<open>
  On the example with the sparse field, for the contig of run 1 followed by run 0, with
  the cycles 0, 1 of run 1 and 1, 2 of run 0: the rows of run 1 come first, and the sparse
  field has NaN wherever a slot stores no row for the cycle.
\<close>

theorem contig_trace_concatenation_witness:
  "is_run_contig trace_archive [1, 0] = Inr True
   \<and> get_contig_trace_fields trace_archive [(1, 0), (1, 1), (0, 1), (0, 2)]
       [POSITIONS, ''observables/rmsd'']
     = Inr [(POSITIONS, [[Some 100, Some 110], [Some 101, Some 111],
                         [Some 1, Some 11], [Some 2, Some 12]]),
            (''observables/rmsd'', [[None, None], [None, Some 30],
                                    [None, None], [Some 20, Some 22]])]"
proof -
  define cycles :: "nat \<Rightarrow> nat list" where "cycles = (\<lambda>r. if r = 1 then [0, 1] else [1, 2])"
  have tr: "contig_trace_of [1, 0] cycles = [(1, 0), (1, 1), (0, 1), (0, 2)]"
    by (simp add: contig_trace_of_def cycles_def)
  have ne: "contig_trace_of [1, 0] cycles \<noteq> []" by (simp only: tr) simp
  have dist: "distinct [1, 0 :: nat]" by simp
  have cyc: "\<forall>r\<in>set [1, 0 :: nat]. sorted_wrt (<) (cycles r)"
    by (simp add: cycles_def)
  have trajs: "\<forall>r\<in>set [1, 0 :: nat]. r < length (runs trace_archive)
                 \<and> length (trajectories (runs trace_archive ! r)) = 2"
    by (simp add: trace_archive_def)
  have pos: "0 < (2 :: nat)" by simp
  have fields: "\<forall>f\<in>set [POSITIONS, ''observables/rmsd'']. \<forall>r\<in>set [1, 0 :: nat]. \<forall>t<2.
                  field_readable (settings trace_archive)
                    (trajectories (runs trace_archive ! r) ! t) f (cycles r)"
    by (simp add: field_readable_def trace_archive_def base_settings_def POSITIONS_def
        cycles_def less_2_cases_iff)
  from contig_trace_concatenation [OF ne dist cyc trajs pos fields]
  have "get_contig_trace_fields trace_archive (contig_trace_of [1, 0] cycles)
          [POSITIONS, ''observables/rmsd'']
        = Inr (map (\<lambda>f. (f, map (\<lambda>(r, c). map (\<lambda>t. stored_cell
                                      (trajectories (runs trace_archive ! r) ! t) f c) [0..<2])
                              (contig_trace_of [1, 0] cycles)))
                 [POSITIONS, ''observables/rmsd''])"
    by blast
  then have "get_contig_trace_fields trace_archive [(1, 0), (1, 1), (0, 1), (0, 2)]
       [POSITIONS, ''observables/rmsd'']
     = Inr [(POSITIONS, [[Some 100, Some 110], [Some 101, Some 111],
                         [Some 1, Some 11], [Some 2, Some 12]]),
            (''observables/rmsd'', [[None, None], [None, Some 30],
                                    [None, None], [Some 20, Some 22]])]"
    unfolding tr
    by (simp add: stored_cell_def trace_archive_def POSITIONS_def upt_rec)
  moreover have "is_run_contig trace_archive [1, 0] = Inr True"
    by (simp add: is_run_contig_def run_idx_continuations_def trace_archive_def
        base_settings_def)
  ultimately show ?thesis by simp
qed

end
